theory Spec2Isabelle
  imports
    Complex_Main
    "HOL-Library.AList"
    "HOL-Library.Product_Lexorder"
    "HOL-Library.List_Lexorder"
    "HOL-Library.Char_ord"
begin

section \<open>Errors raised by the Python code\<close>

text \<open>
  The exceptions that the modelled functions can raise: \<open>IndexError\<close> (\<open>revisions[0]\<close> on an
  empty list), \<open>KeyError\<close> (a missing dictionary key), \<open>ValueError\<close> (\<open>np.min\<close> of an empty
  sequence), \<open>NetworkXError\<close> (removing an edge or node that the graph does not have),
  \<open>OutOfBoundsDatetime\<close> (an instant that a \<open>pandas\<close> \<open>Timestamp\<close> cannot hold; in \<open>pandas\<close> it
  is a subclass of \<open>ValueError\<close>) and \<open>AttributeError\<close> (a method that a value does not
  have).
\<close>

datatype py_error =
  IndexError | KeyError | ValueError | NetworkXError | OutOfBoundsDatetime | AttributeError

section \<open>Revision records\<close>

text \<open>
  A revision as \<open>get_page_revisions\<close> builds it: a dictionary with the keys \<open>pageid\<close>,
  \<open>title\<close>, \<open>user\<close>, \<open>username\<close>, \<open>timestamp\<close> and \<open>size\<close>. A \<open>datetime\<close> is the number of
  seconds since the epoch, so that subtraction gives a \<open>timedelta\<close> in seconds. The key
  \<open>size\<close> is the field \<open>size_bytes\<close>, since \<open>size\<close> is a constant of HOL.
\<close>

type_synonym datetime = int

record revision =
  pageid :: string
  title :: string
  user :: string
  username :: string
  timestamp :: datetime
  size_bytes :: int

section \<open>Directed graphs (\<open>nx.DiGraph\<close>)\<close>

text \<open>
  A \<open>networkx\<close> directed graph: its nodes, and its edges as an association list from the
  pair (source, target) to the edge's data. Adding an edge adds both endpoints as nodes;
  removing an edge keeps them; \<open>remove_edge\<close> and \<open>remove_node\<close> raise \<open>NetworkXError\<close> on
  an edge or node that is not in the graph. The degree of a node of a directed graph is its
  in-degree plus its out-degree.
\<close>

record ('n, 'd) digraph =
  nodes :: "'n list"
  edges :: "(('n \<times> 'n) \<times> 'd) list"

definition DiGraph :: "('n, 'd) digraph" where
  "DiGraph = \<lparr>nodes = [], edges = []\<rparr>"

definition has_edge :: "('n, 'd) digraph \<Rightarrow> 'n \<Rightarrow> 'n \<Rightarrow> bool" where
  "has_edge g u v = (map_of (edges g) (u, v) \<noteq> None)"

definition add_node :: "('n, 'd) digraph \<Rightarrow> 'n \<Rightarrow> ('n, 'd) digraph" where
  "add_node g n = (if n \<in> set (nodes g) then g else g\<lparr>nodes := nodes g @ [n]\<rparr>)"

definition add_edge :: "('n, 'd) digraph \<Rightarrow> 'n \<Rightarrow> 'n \<Rightarrow> 'd \<Rightarrow> ('n, 'd) digraph" where
  "add_edge g u v d =
     (let g' = add_node (add_node g u) v
      in g'\<lparr>edges := AList.update (u, v) d (edges g')\<rparr>)"

definition remove_edge :: "('n, 'd) digraph \<Rightarrow> 'n \<Rightarrow> 'n \<Rightarrow> py_error + ('n, 'd) digraph" where
  "remove_edge g u v =
     (if has_edge g u v then Inr (g\<lparr>edges := AList.delete (u, v) (edges g)\<rparr>)
      else Inl NetworkXError)"

definition remove_node :: "('n, 'd) digraph \<Rightarrow> 'n \<Rightarrow> py_error + ('n, 'd) digraph" where
  "remove_node g n =
     (if n \<in> set (nodes g)
      then Inr \<lparr>nodes = removeAll n (nodes g),
                edges = filter (\<lambda>e. fst (fst e) \<noteq> n \<and> snd (fst e) \<noteq> n) (edges g)\<rparr>
      else Inl NetworkXError)"

definition in_degree :: "('n, 'd) digraph \<Rightarrow> 'n \<Rightarrow> nat" where
  "in_degree g n = length (filter (\<lambda>e. snd (fst e) = n) (edges g))"

definition out_degree :: "('n, 'd) digraph \<Rightarrow> 'n \<Rightarrow> nat" where
  "out_degree g n = length (filter (\<lambda>e. fst (fst e) = n) (edges g))"

definition degree :: "('n, 'd) digraph \<Rightarrow> 'n \<Rightarrow> nat" where
  "degree g n = in_degree g n + out_degree g n"

definition isolates :: "('n, 'd) digraph \<Rightarrow> 'n list" where
  "isolates g = filter (\<lambda>n. degree g n = 0) (nodes g)"

section \<open>\<open>make_hyperlink_network\<close>\<close>

text \<open>
  A Python dictionary is the list of its items in iteration order; its keys are distinct.
  The edges of the hyperlink network carry no data.
\<close>

definition hyperlink_page ::
  "string list \<Rightarrow> string \<Rightarrow> string list \<Rightarrow> (string, unit) digraph \<Rightarrow> (string, unit) digraph" where
  "hyperlink_page keys page links g =
     fold (\<lambda>link g. if link \<in> set keys then add_edge g page link () else g) links g"

definition make_hyperlink_network :: "(string \<times> string list) list \<Rightarrow> (string, unit) digraph" where
  "make_hyperlink_network hyperlink_dict =
     fold (\<lambda>(page, links) g. hyperlink_page (map fst hyperlink_dict) page links g)
       hyperlink_dict DiGraph"

section \<open>Weighted edges\<close>

text \<open>
  The pattern shared by the trajectory and the shared-editing builders:
  \<^verbatim>\<open>if g.has_edge(u, v): g[u][v]['weight'] += 1  else: g.add_edge(u, v, weight=1)\<close>.
\<close>

definition count_edge :: "('n, int) digraph \<Rightarrow> 'n \<Rightarrow> 'n \<Rightarrow> ('n, int) digraph" where
  "count_edge g u v =
     (case map_of (edges g) (u, v) of
        Some w \<Rightarrow> g\<lparr>edges := AList.update (u, v) (w + 1) (edges g)\<rparr>
      | None \<Rightarrow> add_edge g u v 1)"

section \<open>\<open>make_article_trajectory\<close>\<close>

text \<open>
  \<open>sorted\<close> is stable, as \<open>sort_key\<close> is. The loop runs over \<open>sorted_revisions[:-1]\<close> with its
  index \<open>num\<close>; the edge's source is read from the sorted list and its target from
  \<open>revisions[num+1]\<close>, the list as the caller passed it. The index \<open>num + 1\<close> is always in
  range, since \<open>num\<close> is at most the length minus two.
\<close>

definition make_article_trajectory :: "revision list \<Rightarrow> (string, int) digraph" where
  "make_article_trajectory revisions =
     (let sorted_revisions = sort_key timestamp revisions
      in fold (\<lambda>(num, rev) g. count_edge g (user rev) (user (revisions ! (num + 1))))
           (enumerate 0 (butlast sorted_revisions)) DiGraph)"

section \<open>\<open>make_shared_user_editing_network\<close>\<close>

text \<open>
  The two cleanup loops iterate over \<open>edges_iter(data=True)\<close> and remove edges while they
  iterate; under Python 2 the iteration runs over a snapshot of the items, so every edge
  of the snapshot is visited once. \<open>nx.isolates\<close> returns the list of nodes of degree 0.
\<close>

definition editor_walk :: "string list \<Rightarrow> (string, int) digraph \<Rightarrow> (string, int) digraph" where
  "editor_walk articles net =
     fold (\<lambda>(num, article) net. count_edge net article (articles ! (num + 1)))
       (enumerate 0 (butlast articles)) net"

fun prune_edges ::
  "('n \<Rightarrow> 'n \<Rightarrow> 'd \<Rightarrow> bool) \<Rightarrow> (('n \<times> 'n) \<times> 'd) list \<Rightarrow> ('n, 'd) digraph
     \<Rightarrow> py_error + ('n, 'd) digraph" where
  "prune_edges P [] net = Inr net"
| "prune_edges P (((i, j), d) # es) net =
     (if P i j d
      then (case remove_edge net i j of Inl e \<Rightarrow> Inl e | Inr net' \<Rightarrow> prune_edges P es net')
      else prune_edges P es net)"

fun remove_nodes :: "'n list \<Rightarrow> ('n, 'd) digraph \<Rightarrow> py_error + ('n, 'd) digraph" where
  "remove_nodes [] net = Inr net"
| "remove_nodes (isolate # ns) net =
     (case remove_node net isolate of Inl e \<Rightarrow> Inl e | Inr net' \<Rightarrow> remove_nodes ns net')"

definition make_shared_user_editing_network ::
  "(string \<times> revision list) list \<Rightarrow> int \<Rightarrow> py_error + (string, int) digraph" where
  "make_shared_user_editing_network alter_revisions_dict threshold =
     (let net = fold (\<lambda>(editor, revisions) net. editor_walk (map title revisions) net)
                  alter_revisions_dict DiGraph
      in case prune_edges (\<lambda>i j d. d < threshold) (edges net) net of
           Inl e \<Rightarrow> Inl e
         | Inr net1 \<Rightarrow>
             (case prune_edges (\<lambda>i j d. i = j) (edges net1) net1 of
                Inl e \<Rightarrow> Inl e
              | Inr net2 \<Rightarrow> remove_nodes (isolates net2) net2))"

section \<open>Calendar dates and time series\<close>

text \<open>
  \<open>date\<close> is \<open>datetime.date()\<close>, the day number of a \<open>datetime\<close>; \<open>combine d\<close> is
  \<open>datetime.datetime.combine(d, datetime.time())\<close>, midnight of day \<open>d\<close>;
  \<open>date_range start stop\<close> is \<open>pd.date_range(start, stop)\<close>, the instants one day apart
  from \<open>start\<close> up to \<open>stop\<close>. \<open>np.min\<close> and \<open>np.max\<close> raise \<open>ValueError\<close> on an empty
  sequence.
\<close>

definition date :: "datetime \<Rightarrow> int" where
  "date t = t div 86400"

definition combine :: "int \<Rightarrow> datetime" where
  "combine d = d * 86400"

definition date_range :: "datetime \<Rightarrow> datetime \<Rightarrow> datetime list" where
  "date_range start stop = map (\<lambda>k. start + 86400 * k) [0..(stop - start) div 86400]"

definition np_min :: "'a::linorder list \<Rightarrow> py_error + 'a" where
  "np_min xs = (case xs of [] \<Rightarrow> Inl ValueError | x # ys \<Rightarrow> Inr (fold min ys x))"

definition np_max :: "'a::linorder list \<Rightarrow> py_error + 'a" where
  "np_max xs = (case xs of [] \<Rightarrow> Inl ValueError | x # ys \<Rightarrow> Inr (fold max ys x))"

text \<open>
  A \<open>pandas\<close> \<open>Timestamp\<close> counts nanoseconds in 64 bits: it holds the instants from
  1677-09-21 to 2262-04-11, which are the whole seconds from \<open>Timestamp_min\<close> to
  \<open>Timestamp_max\<close>. In the versions of \<open>pandas\<close> that have \<open>pd.TimeSeries\<close>, building the index
  of a series from an instant outside this range raises, and so does slicing a series by
  such an instant.

  A \<open>pd.TimeSeries\<close> is the list of its (index, value) pairs. \<open>reindex\<close> looks every
  instant of the new index up and fills the missing ones with \<open>fill\<close>. The slice
  \<open>ts[min_date:max_date]\<close> of a series with an increasing index keeps the entries whose
  index lies between the two bounds, both included.
\<close>

definition Timestamp_min :: datetime where
  "Timestamp_min = - 9223372036"

definition Timestamp_max :: datetime where
  "Timestamp_max = 9223372036"

definition in_bounds :: "datetime \<Rightarrow> bool" where
  "in_bounds t = (Timestamp_min \<le> t \<and> t \<le> Timestamp_max)"

type_synonym 'v series = "(datetime \<times> 'v) list"

definition TimeSeries :: "'v list \<Rightarrow> datetime list \<Rightarrow> py_error + 'v series" where
  "TimeSeries vals index =
     (if list_all in_bounds index then Inr (zip index vals) else Inl OutOfBoundsDatetime)"

definition reindex :: "'v series \<Rightarrow> datetime list \<Rightarrow> 'v \<Rightarrow> 'v series" where
  "reindex ts new_index fill =
     map (\<lambda>t. (t, case map_of ts t of Some v \<Rightarrow> v | None \<Rightarrow> fill)) new_index"

definition slice :: "'v series \<Rightarrow> datetime \<Rightarrow> datetime \<Rightarrow> py_error + 'v series" where
  "slice ts min_date max_date =
     (if in_bounds min_date \<and> in_bounds max_date
      then Inr (filter (\<lambda>e. min_date \<le> fst e \<and> fst e \<le> max_date) ts)
      else Inl OutOfBoundsDatetime)"

text \<open>
  A float is \<open>None\<close> when it is NaN. \<open>fillna(method='ffill')\<close> replaces a NaN by the last
  value before it that is not NaN, and leaves it when there is none.
\<close>

fun ffill_from :: "'v option \<Rightarrow> 'v option series \<Rightarrow> 'v option series" where
  "ffill_from prev [] = []"
| "ffill_from prev ((t, None) # ts) = (t, prev) # ffill_from prev ts"
| "ffill_from prev ((t, Some v) # ts) = (t, Some v) # ffill_from (Some v) ts"

definition fillna_ffill :: "'v option series \<Rightarrow> 'v option series" where
  "fillna_ffill ts = ffill_from None ts"

section \<open>\<open>revision_counter\<close>\<close>

text \<open>
  The dictionary \<open>dd\<close> from dates to counts is the list of its items; \<open>count_date\<close> is
  the body of the loop that fills it (\<open>dd[d] += 1\<close>, or \<open>dd[d] = 1\<close> on a \<open>KeyError\<close>). The
  series is built from its keys, combined with midnight, and its values.
\<close>

definition count_date :: "revision \<Rightarrow> (int \<times> int) list \<Rightarrow> (int \<times> int) list" where
  "count_date r dd =
     (let d = date (timestamp r)
      in case map_of dd d of
           Some c \<Rightarrow> AList.update d (c + 1) dd
         | None \<Rightarrow> AList.update d 1 dd)"

definition count_dates :: "revision list \<Rightarrow> (int \<times> int) list" where
  "count_dates revisions = fold count_date revisions []"

definition revision_counter ::
  "revision list \<Rightarrow> datetime \<Rightarrow> datetime \<Rightarrow> py_error + int series" where
  "revision_counter revisions min_date max_date =
     (let dd = count_dates revisions;
          di = map (\<lambda>i. combine i) (map fst dd)
      in case TimeSeries (map snd dd) di of
           Inl e \<Rightarrow> Inl e
         | Inr ts \<Rightarrow>
             (case np_min (map fst ts) of
                Inl e \<Rightarrow> Inl e
              | Inr lo \<Rightarrow>
                  (case np_max (map fst ts) of
                     Inl e \<Rightarrow> Inl e
                   | Inr hi \<Rightarrow> slice (reindex ts (date_range lo hi) 0) min_date max_date)))"

section \<open>\<open>size_counter\<close>\<close>

text \<open>
  \<open>np.median\<close> is a function of \<open>numpy\<close>, which returns a 64-bit float or NaN. It is the
  parameter \<open>np_median\<close> of \<open>size_counter\<close>: a function from a list of sizes to a value of
  any type \<open>'f\<close>, \<open>None\<close> when it is NaN. \<open>exact_median\<close> is the median as an exact rational:
  the middle element of the sorted list, or the mean of the two middle elements, and NaN
  on an empty list. \<open>np.median\<close> returns this number when every size is below \<open>2 ^ 52\<close> in
  absolute value; the examples use it there.
\<close>

definition exact_median :: "int list \<Rightarrow> rat option" where
  "exact_median v =
     (let s = sort v; n = length s
      in if n = 0 then None
         else if n mod 2 = 1 then Some (of_int (s ! (n div 2)))
         else Some ((of_int (s ! (n div 2 - 1)) + of_int (s ! (n div 2))) / 2))"

definition collect_size ::
  "revision \<Rightarrow> (int \<times> int list) list \<Rightarrow> (int \<times> int list) list" where
  "collect_size r dd =
     (let d = date (timestamp r)
      in case map_of dd d of
           Some v \<Rightarrow> AList.update d (v @ [size_bytes r]) dd
         | None \<Rightarrow> AList.update d [size_bytes r] dd)"

definition collect_sizes :: "revision list \<Rightarrow> (int \<times> int list) list" where
  "collect_sizes revisions = fold collect_size revisions []"

definition daily_median ::
  "(int list \<Rightarrow> 'f option) \<Rightarrow> revision list \<Rightarrow> (int \<times> 'f option) list" where
  "daily_median np_median revisions =
     map (\<lambda>(k, v). (k, np_median v)) (collect_sizes revisions)"

definition size_counter ::
  "(int list \<Rightarrow> 'f option) \<Rightarrow> revision list \<Rightarrow> datetime \<Rightarrow> datetime
     \<Rightarrow> py_error + 'f option series" where
  "size_counter np_median revisions min_date max_date =
     (let dd2 = daily_median np_median revisions;
          di = map (\<lambda>i. combine i) (map fst dd2)
      in case TimeSeries (map snd dd2) di of
           Inl e \<Rightarrow> Inl e
         | Inr ts \<Rightarrow>
             (case np_min (map fst ts) of
                Inl e \<Rightarrow> Inl e
              | Inr lo \<Rightarrow>
                  (case np_max (map fst ts) of
                     Inl e \<Rightarrow> Inl e
                   | Inr hi \<Rightarrow>
                       slice (fillna_ffill (reindex ts (date_range lo hi) None))
                         min_date max_date)))"

section \<open>\<open>is_ip\<close>\<close>

text \<open>
  A value of a raw revision dictionary is a string or a number. The two patterns of
  \<open>is_ip\<close> are matched at the start of the string (\<open>re.match\<close>); what follows the match is
  ignored. The matcher returns the list of the remainders that a pattern can leave, in
  the order in which backtracking tries them: \<open>class_1_3 P\<close> is a character class repeated
  one to three times, greedily, and \<open>literal c\<close> a single character. \<open>\d\<close> on a byte string
  is an ASCII digit.
\<close>

datatype jval = JStr string | JInt int

definition is_digit :: "char \<Rightarrow> bool" where
  "is_digit c = (c \<in> set ''0123456789'')"

definition is_x :: "char \<Rightarrow> bool" where
  "is_x c = (c \<in> set ''Xx'')"

definition class_1_3 :: "(char \<Rightarrow> bool) \<Rightarrow> string \<Rightarrow> string list" where
  "class_1_3 P s = map (\<lambda>k. drop k s) (filter (\<lambda>k. k \<le> length (takeWhile P s)) [3, 2, 1])"

definition literal :: "char \<Rightarrow> string list \<Rightarrow> string list" where
  "literal c rests = map tl (filter (\<lambda>r. r \<noteq> [] \<and> hd r = c) rests)"

definition octet_pattern :: "bool \<Rightarrow> string \<Rightarrow> string list" where
  "octet_pattern masked s =
     (if masked then class_1_3 is_digit s @ class_1_3 is_x s else class_1_3 is_digit s)"

definition octet_dot :: "bool \<Rightarrow> string \<Rightarrow> string list" where
  "octet_dot masked s = literal CHR ''.'' (octet_pattern masked s)"

definition ip_pattern :: "bool \<Rightarrow> string \<Rightarrow> string list" where
  "ip_pattern masked s =
     concat (map (octet_pattern masked)
       (concat (map (octet_dot masked) (concat (map (octet_dot masked) (octet_dot masked s))))))"

fun is_ip :: "jval \<Rightarrow> bool \<Rightarrow> bool" where
  "is_ip (JInt n) masked = False"
| "is_ip (JStr ip_string) masked = (ip_pattern masked ip_string \<noteq> [])"

section \<open>\<open>random_string\<close>\<close>

text \<open>
  The state of the process-wide random generator is the sequence of the draws still to
  come; \<open>random.choice\<close> takes the next draw \<open>n\<close> and returns the element of index
  \<open>n mod len\<close>, and raises \<open>IndexError\<close> on an empty sequence.
\<close>

type_synonym rng = "nat \<Rightarrow> nat"

definition choice :: "rng \<Rightarrow> 'a list \<Rightarrow> py_error + ('a \<times> rng)" where
  "choice g xs =
     (if xs = [] then Inl IndexError else Inr (xs ! (g 0 mod length xs), \<lambda>i. g (Suc i)))"

definition cr :: "char \<Rightarrow> char \<Rightarrow> nat list" where
  "cr x y = [of_char x..<of_char y + 1]"

definition rc :: "bool \<Rightarrow> bool \<Rightarrow> rng \<Rightarrow> py_error + (char \<times> rng)" where
  "rc letters numerals g =
     (let charset = (if letters then cr CHR ''a'' CHR ''z'' else []) @
                    (if numerals then cr CHR ''0'' CHR ''9'' else [])
      in case choice g charset of
           Inl e \<Rightarrow> Inl e
         | Inr (n, g') \<Rightarrow> Inr (char_of n, g'))"

fun rcs :: "nat \<Rightarrow> bool \<Rightarrow> bool \<Rightarrow> rng \<Rightarrow> py_error + (string \<times> rng)" where
  "rcs 0 letters numerals g = Inr ([], g)"
| "rcs (Suc k) letters numerals g =
     (case rc letters numerals g of
        Inl e \<Rightarrow> Inl e
      | Inr (c, g') \<Rightarrow>
          (case rcs k letters numerals g' of
             Inl e \<Rightarrow> Inl e
           | Inr (s, g'') \<Rightarrow> Inr (c # s, g'')))"

definition random_string :: "nat \<Rightarrow> bool \<Rightarrow> bool \<Rightarrow> rng \<Rightarrow> py_error + (string \<times> rng)" where
  "random_string le letters numerals g = rcs le letters numerals g"

section \<open>\<open>clean_revision\<close>\<close>

text \<open>
  A raw revision is a dictionary from keys to values. \<open>split_on\<close> is \<open>str.split\<close> with a
  separator; \<open>pad3\<close> is \<open>'0' * (3 - len(octet)) + octet\<close>, where a negative count gives the
  empty string. \<open>clean_revision\<close> works on a copy \<open>revision\<close> of its argument \<open>r\<close> (the
  source's \<open>rev\<close>) and returns it; it takes the state of the random generator and returns
  the new one.
\<close>

type_synonym raw_revision = "string \<Rightarrow> jval option"

fun split_on :: "char \<Rightarrow> string \<Rightarrow> string list" where
  "split_on sep [] = [[]]"
| "split_on sep (c # cs) =
     (if c = sep then [] # split_on sep cs
      else (case split_on sep cs of w # ws \<Rightarrow> (c # w) # ws | [] \<Rightarrow> [[c]]))"

definition pad3 :: "string \<Rightarrow> string" where
  "pad3 octet = replicate (3 - length octet) CHR ''0'' @ octet"

definition placeholder :: "nat \<Rightarrow> rng \<Rightarrow> raw_revision \<Rightarrow> py_error + (raw_revision \<times> rng)" where
  "placeholder le g revision =
     (case random_string le False True g of
        Inl e \<Rightarrow> Inl e
      | Inr (s, g') \<Rightarrow> Inr (revision(''user'' \<mapsto> JStr s, ''userid'' \<mapsto> JStr s), g'))"

definition clean_revision :: "rng \<Rightarrow> raw_revision \<Rightarrow> py_error + (raw_revision \<times> rng)" where
  "clean_revision g r =
     (let revision = r
      in if ''userhidden'' \<in> dom revision then placeholder 15 g revision
         else if ''anon'' \<in> dom revision then
           (case revision ''user'' of
              None \<Rightarrow> Inl KeyError
            | Some u \<Rightarrow>
                if u = JStr ''Conversion script'' then placeholder 14 g revision
                else if is_ip u False then
                  (case u of
                     JStr ip \<Rightarrow>
                       Inr (revision(''user'' \<mapsto> u,
                              ''userid'' \<mapsto> JStr (concat (map pad3 (split_on CHR ''.'' ip)))), g)
                   | JInt n \<Rightarrow> Inl AttributeError)
                else if is_ip u True then placeholder 13 g revision
                else Inr (revision, g))
         else Inr (revision, g))"

section \<open>\<open>adjacency_calcs\<close>\<close>

text \<open>
  \<open>adjacency_calcs\<close> writes into the dictionaries of the list it is given, and the lists of
  users that it stores in them are shared between dictionaries, so the model has a store:
  the revision dictionaries and the list objects, each by its address. A revision
  dictionary has the keys of a revision and the six derived keys, which are absent
  (\<open>None\<close>) until they are written; \<open>unique_users\<close> holds the address of a list object. An
  \<open>edit_lag\<close> or \<open>article_age\<close> is a number of seconds. The argument \<open>revisions\<close> is a list of
  addresses of dictionaries.

  \<open>list(set(xs))\<close> is the list of the distinct elements of \<open>xs\<close>, in an order that Python
  leaves open; \<open>list_set\<close> fixes the order of the first occurrences.
\<close>

type_synonym addr = nat

record rev_obj = revision +
  position :: "int option"
  edit_lag :: "int option"
  bytes_added :: "int option"
  unique_users :: "addr option"
  unique_users_count :: "int option"
  article_age :: "int option"

record store =
  objs :: "rev_obj list"
  lists :: "string list list"

definition set_obj :: "store \<Rightarrow> addr \<Rightarrow> (rev_obj \<Rightarrow> rev_obj) \<Rightarrow> store" where
  "set_obj h a f = h\<lparr>objs := (objs h)[a := f (objs h ! a)]\<rparr>"

definition new_list :: "store \<Rightarrow> string list \<Rightarrow> addr \<times> store" where
  "new_list h xs = (length (lists h), h\<lparr>lists := lists h @ [xs]\<rparr>)"

definition list_append :: "store \<Rightarrow> addr \<Rightarrow> string \<Rightarrow> store" where
  "list_append h l x = h\<lparr>lists := (lists h)[l := lists h ! l @ [x]]\<rparr>"

definition list_set :: "string list \<Rightarrow> string list" where
  "list_set xs = remdups xs"

text \<open>
  The body of the loop, for the dictionary \<open>rev'\<close> (the source's \<open>rev\<close>, at
  \<open>revisions[num]\<close>), the next one \<open>nxt\<close> (at \<open>revisions[num+1]\<close>) and the first one (at
  \<open>revisions[0]\<close>). Each line of the source is one update of the store, in the source's
  order: the assignment of \<open>rev['unique_users']\<close> stores the address of the list of \<open>rev\<close>,
  \<open>append\<close> changes that list object, and \<open>list(set(...))\<close> makes a new one.
\<close>

definition calc_step :: "addr \<Rightarrow> addr \<Rightarrow> addr \<Rightarrow> store \<Rightarrow> py_error + store" where
  "calc_step first rev' nxt h0 =
     (case position (objs h0 ! rev') of
        None \<Rightarrow> Inl KeyError
      | Some p \<Rightarrow>
          (let h1 = set_obj h0 nxt (\<lambda>ob. ob\<lparr>position := Some (p + 1)\<rparr>);
               h2 = set_obj h1 nxt (\<lambda>ob. ob\<lparr>edit_lag :=
                      Some (timestamp (objs h1 ! nxt) - timestamp (objs h1 ! rev'))\<rparr>);
               h3 = set_obj h2 nxt (\<lambda>ob. ob\<lparr>bytes_added :=
                      Some (size_bytes (objs h2 ! nxt) - size_bytes (objs h2 ! rev'))\<rparr>)
           in case unique_users (objs h3 ! rev') of
                None \<Rightarrow> Inl KeyError
              | Some l \<Rightarrow>
                  (let h4 = set_obj h3 nxt (\<lambda>ob. ob\<lparr>unique_users := Some l\<rparr>);
                       h5 = list_append h4 l (username (objs h4 ! nxt));
                       (l', h6) = new_list h5 (list_set (lists h5 ! l));
                       h7 = set_obj h6 nxt (\<lambda>ob. ob\<lparr>unique_users := Some l'\<rparr>);
                       h8 = set_obj h7 nxt (\<lambda>ob. ob\<lparr>unique_users_count :=
                              Some (int (length (lists h7 ! l')))\<rparr>);
                       h9 = set_obj h8 nxt (\<lambda>ob. ob\<lparr>article_age :=
                              Some (timestamp (objs h8 ! nxt) - timestamp (objs h8 ! first))\<rparr>)
                   in Inr h9)))"

text \<open>
  The loop \<open>for num, rev in enumerate(revisions[:-1])\<close> visits every dictionary of the list
  but the last, each with the one after it, \<open>revisions[num+1]\<close>.
\<close>

fun calc_loop :: "addr \<Rightarrow> addr list \<Rightarrow> store \<Rightarrow> py_error + store" where
  "calc_loop first (rev' # nxt # rest) h =
     (case calc_step first rev' nxt h of
        Inl e \<Rightarrow> Inl e
      | Inr h' \<Rightarrow> calc_loop first (nxt # rest) h')"
| "calc_loop first rest h = Inr h"

definition calc_first :: "addr \<Rightarrow> store \<Rightarrow> store" where
  "calc_first first h0 =
     (let h1 = set_obj h0 first (\<lambda>ob. ob\<lparr>position := Some 0\<rparr>);
          h2 = set_obj h1 first (\<lambda>ob. ob\<lparr>edit_lag := Some 0\<rparr>);
          h3 = set_obj h2 first (\<lambda>ob. ob\<lparr>bytes_added := Some (size_bytes (objs h2 ! first))\<rparr>);
          (l, h4) = new_list h3 [username (objs h3 ! first)];
          h5 = set_obj h4 first (\<lambda>ob. ob\<lparr>unique_users := Some l\<rparr>);
          h6 = set_obj h5 first (\<lambda>ob. ob\<lparr>unique_users_count := Some 1\<rparr>)
      in set_obj h6 first (\<lambda>ob. ob\<lparr>article_age := Some 0\<rparr>))"

definition sorted_refs :: "store \<Rightarrow> addr list \<Rightarrow> addr list" where
  "sorted_refs h revisions =
     sort_key (\<lambda>a. (pageid (objs h ! a), timestamp (objs h ! a))) revisions"

definition adjacency_calcs :: "store \<Rightarrow> addr list \<Rightarrow> py_error + (addr list \<times> store)" where
  "adjacency_calcs h revisions0 =
     (let revisions = sorted_refs h revisions0
      in case revisions of
           [] \<Rightarrow> Inl IndexError
         | first # rest \<Rightarrow>
             (case calc_loop first revisions (calc_first first h) of
                Inl e \<Rightarrow> Inl e
              | Inr h' \<Rightarrow> Inr (revisions, h')))"

section \<open>Vocabulary of the statements about the daily series\<close>

text \<open>
  The revisions made on day \<open>d\<close>, the set of days that have a revision, the first and the
  last of them, and the last observed day at or before \<open>d\<close>. \<open>counts_between\<close> is the series
  of the daily revision counts over the days \<open>l\<close> to \<open>u\<close>; \<open>medians_between\<close> is the series
  that gives each of these days the median size of the last observed day at or before it.
\<close>

definition revisions_on :: "int \<Rightarrow> revision list \<Rightarrow> revision list" where
  "revisions_on d revisions = filter (\<lambda>r. date (timestamp r) = d) revisions"

definition dates_of :: "revision list \<Rightarrow> int set" where
  "dates_of revisions = set (map (\<lambda>r. date (timestamp r)) revisions)"

definition first_date :: "revision list \<Rightarrow> int" where
  "first_date revisions = Min (dates_of revisions)"

definition last_date :: "revision list \<Rightarrow> int" where
  "last_date revisions = Max (dates_of revisions)"

definition last_observed :: "revision list \<Rightarrow> int \<Rightarrow> int" where
  "last_observed revisions d = Max {d' \<in> dates_of revisions. d' \<le> d}"

definition counts_between :: "revision list \<Rightarrow> int \<Rightarrow> int \<Rightarrow> int series" where
  "counts_between revisions l u =
     map (\<lambda>d. (combine d, int (length (revisions_on d revisions)))) [l..u]"

definition medians_between ::
  "(int list \<Rightarrow> 'f option) \<Rightarrow> revision list \<Rightarrow> int \<Rightarrow> int \<Rightarrow> 'f option series" where
  "medians_between np_median revisions l u =
     map (\<lambda>d. (combine d,
                np_median (map size_bytes (revisions_on (last_observed revisions d) revisions))))
       [l..u]"

text \<open>
  \<open>day_ceil t\<close> is the first day whose midnight is at or after the instant \<open>t\<close>; the last
  day whose midnight is at or before \<open>t\<close> is \<open>date t\<close>. \<open>days_in_bounds\<close> holds when the
  midnight of the day of every revision is an instant that a \<open>Timestamp\<close> holds.
\<close>

definition day_ceil :: "datetime \<Rightarrow> int" where
  "day_ceil t = - ((- t) div 86400)"

definition days_in_bounds :: "revision list \<Rightarrow> bool" where
  "days_in_bounds revisions =
     list_all (\<lambda>r. in_bounds (combine (date (timestamp r)))) revisions"

text \<open>
  \<open>carried f prev l d\<close> is the value that forward filling gives day \<open>d\<close> of a series that
  starts on day \<open>l\<close> with the values \<open>f\<close>, when the value before the series is \<open>prev\<close>: the
  value of the last day from \<open>l\<close> to \<open>d\<close> that has one, or \<open>prev\<close>.
\<close>

definition carried :: "(int \<Rightarrow> 'v option) \<Rightarrow> 'v option \<Rightarrow> int \<Rightarrow> int \<Rightarrow> 'v option" where
  "carried f prev l d =
     (if {d'. l \<le> d' \<and> d' \<le> d \<and> f d' \<noteq> None} = {} then prev
      else f (Max {d'. l \<le> d' \<and> d' \<le> d \<and> f d' \<noteq> None}))"

section \<open>Vocabulary of the statements about \<open>clean_revision\<close>\<close>

text \<open>
  \<open>needs_placeholder\<close> holds of the raw revisions for which \<open>clean_revision\<close> calls
  \<open>random_string\<close>: the hidden users, the conversion script and the masked addresses.
  \<open>cleaned\<close> is the revision that \<open>clean_revision\<close> returns, without the state of the
  generator. An octet is a string of one to three digits; it is canonical when it has no
  leading zero. \<open>dotted_quad\<close> joins four octets with dots, and \<open>ip_userid\<close> joins them
  padded to three digits.
\<close>

definition needs_placeholder :: "raw_revision \<Rightarrow> bool" where
  "needs_placeholder r =
     (''userhidden'' \<in> dom r \<or>
      (''anon'' \<in> dom r \<and>
       (case r ''user'' of
          None \<Rightarrow> False
        | Some u \<Rightarrow> u = JStr ''Conversion script'' \<or> (\<not> is_ip u False \<and> is_ip u True))))"

definition cleaned :: "rng \<Rightarrow> raw_revision \<Rightarrow> py_error + raw_revision" where
  "cleaned g r = (case clean_revision g r of Inl e \<Rightarrow> Inl e | Inr (r', g') \<Rightarrow> Inr r')"

definition cleaned_field :: "rng \<Rightarrow> raw_revision \<Rightarrow> string \<Rightarrow> jval option" where
  "cleaned_field g r k = (case clean_revision g r of Inl e \<Rightarrow> None | Inr (r', g') \<Rightarrow> r' k)"

definition octet :: "string \<Rightarrow> bool" where
  "octet s = (s \<noteq> [] \<and> length s \<le> 3 \<and> list_all is_digit s)"

definition canonical :: "string \<Rightarrow> bool" where
  "canonical s = (s = ''0'' \<or> (s \<noteq> [] \<and> hd s \<noteq> CHR ''0''))"

definition dotted_quad :: "string \<Rightarrow> string \<Rightarrow> string \<Rightarrow> string \<Rightarrow> string" where
  "dotted_quad a b c d = a @ ''.'' @ b @ ''.'' @ c @ ''.'' @ d"

definition ip_userid :: "string \<Rightarrow> string \<Rightarrow> string \<Rightarrow> string \<Rightarrow> string" where
  "ip_userid a b c d = pad3 a @ pad3 b @ pad3 c @ pad3 d"

section \<open>Example inputs\<close>

definition anon_example :: "string \<Rightarrow> raw_revision" where
  "anon_example u = [''anon'' \<mapsto> JStr [], ''userid'' \<mapsto> JInt 0, ''user'' \<mapsto> JStr u]"

definition hidden_example :: raw_revision where
  "hidden_example = [''userhidden'' \<mapsto> JStr []]"

definition hidden_anon_example :: raw_revision where
  "hidden_anon_example =
     [''userhidden'' \<mapsto> JStr [], ''anon'' \<mapsto> JStr [], ''userid'' \<mapsto> JInt 0,
      ''user'' \<mapsto> JStr ''1.2.3.4'']"


definition mk_revision :: "string \<Rightarrow> string \<Rightarrow> datetime \<Rightarrow> int \<Rightarrow> revision" where
  "mk_revision page editor t sz =
     \<lparr>pageid = page, title = page, user = editor, username = editor, timestamp = t,
      size_bytes = sz\<rparr>"

definition shared_example :: "(string \<times> revision list) list" where
  "shared_example =
     [(''u1'', [mk_revision ''X'' ''u1'' 0 0, mk_revision ''Y'' ''u1'' 1 0]),
      (''u2'', [mk_revision ''Y'' ''u2'' 0 0, mk_revision ''Z'' ''u2'' 1 0,
               mk_revision ''Y'' ''u2'' 2 0])]"

definition unsorted_example :: "revision list" where
  "unsorted_example =
     [mk_revision ''P'' ''B'' 2 0, mk_revision ''P'' ''A'' 1 0, mk_revision ''P'' ''C'' 3 0]"

definition series_example :: "revision list" where
  "series_example =
     [mk_revision ''X'' ''u1'' (combine 1 + 100) 100,
      mk_revision ''X'' ''u2'' (combine 1 + 200) 150,
      mk_revision ''X'' ''u1'' (combine 3 + 5) 200]"

definition single_example :: "revision list" where
  "single_example = [mk_revision ''X'' ''u1'' (combine 5) 100]"

definition late_window_example :: "revision list" where
  "late_window_example =
     [mk_revision ''X'' ''u1'' (combine 0) 10,
      mk_revision ''X'' ''u2'' (combine 1) 20,
      mk_revision ''X'' ''u1'' (combine 5) 30]"

definition far_example :: "revision list" where
  "far_example = [mk_revision ''X'' ''u1'' (combine 400000) 100]"

definition new_obj :: "string \<Rightarrow> string \<Rightarrow> datetime \<Rightarrow> int \<Rightarrow> rev_obj" where
  "new_obj page editor t sz =
     \<lparr>pageid = page, title = page, user = editor, username = editor, timestamp = t,
      size_bytes = sz, position = None, edit_lag = None, bytes_added = None,
      unique_users = None, unique_users_count = None, article_age = None\<rparr>"

definition two_store :: store where
  "two_store = \<lparr>objs = [new_obj ''X'' ''u1'' 10 100, new_obj ''X'' ''u2'' 20 150], lists = []\<rparr>"

definition one_store :: store where
  "one_store = \<lparr>objs = [new_obj ''X'' ''u1'' 10 100], lists = []\<rparr>"

(*DEFS-END*)
section \<open>Graph operations\<close>

lemma delete_filter: "AList.delete k al = filter (\<lambda>e. fst e \<noteq> k) al"
  by (induction al) auto

lemma has_edge_add_node [simp]: "has_edge (add_node g n) p l = has_edge g p l"
  by (simp add: has_edge_def add_node_def)

lemma edges_add_node [simp]: "edges (add_node g n) = edges g"
  by (simp add: add_node_def)

lemma distinct_nodes_add_node: "distinct (nodes g) \<Longrightarrow> distinct (nodes (add_node g n))"
  by (simp add: add_node_def)

lemma has_edge_add_edge:
  "has_edge (add_edge g u v d) p l \<longleftrightarrow> (p = u \<and> l = v) \<or> has_edge g p l"
  by (auto simp: has_edge_def add_edge_def add_node_def Let_def update_conv')

lemma has_edge_DiGraph [simp]: "\<not> has_edge DiGraph p l"
  by (simp add: has_edge_def DiGraph_def)

lemma degree_pos_iff:
  "0 < degree g n \<longleftrightarrow> (\<exists>e \<in> set (edges g). fst (fst e) = n \<or> snd (fst e) = n)"
  by (auto simp: degree_def in_degree_def out_degree_def filter_empty_conv)

text \<open>
  Removing, from a snapshot of distinct edges of the graph, those that satisfy \<open>P\<close> never
  raises, and filters the edge list.
\<close>

lemma prune_edges_filter:
  assumes "distinct (map fst (edges net))" "set es \<subseteq> set (edges net)" "distinct (map fst es)"
  shows "prune_edges P es net =
    Inr (net\<lparr>edges :=
      filter (\<lambda>e. \<not> (e \<in> set es \<and> P (fst (fst e)) (snd (fst e)) (snd e))) (edges net)\<rparr>)"
  using assms
proof (induction es arbitrary: net)
  case Nil
  then show ?case by simp
next
  case (Cons a es)
  obtain i j d where a: "a = ((i, j), d)" by (metis prod.exhaust)
  have in_net: "((i, j), d) \<in> set (edges net)" using Cons.prems a by simp
  have uniq: "\<And>e. e \<in> set (edges net) \<Longrightarrow> fst e = (i, j) \<Longrightarrow> e = ((i, j), d)"
    using Cons.prems(1) in_net by (metis eq_key_imp_eq_value prod.collapse)
  have notin: "\<And>e. e \<in> set es \<Longrightarrow> fst e \<noteq> (i, j)"
    using Cons.prems(3) a by force
  show ?case
  proof (cases "P i j d")
    case False
    have step: "prune_edges P (a # es) net = prune_edges P es net" using False a by simp
    have ih: "prune_edges P es net = Inr (net\<lparr>edges :=
        filter (\<lambda>e. \<not> (e \<in> set es \<and> P (fst (fst e)) (snd (fst e)) (snd e))) (edges net)\<rparr>)"
      using Cons.IH[of net] Cons.prems by simp
    have "filter (\<lambda>e. \<not> (e \<in> set es \<and> P (fst (fst e)) (snd (fst e)) (snd e))) (edges net)
        = filter (\<lambda>e. \<not> (e \<in> set (a # es) \<and> P (fst (fst e)) (snd (fst e)) (snd e))) (edges net)"
      using False a by (intro filter_cong) auto
    then show ?thesis using step ih by simp
  next
    case True
    define net' where "net' = net\<lparr>edges := AList.delete (i, j) (edges net)\<rparr>"
    have e': "edges net' = filter (\<lambda>e. fst e \<noteq> (i, j)) (edges net)"
      by (simp add: net'_def delete_filter)
    have he: "has_edge net i j" using in_net Cons.prems(1) by (simp add: has_edge_def)
    have step: "prune_edges P (a # es) net = prune_edges P es net'"
      using True a he by (simp add: remove_edge_def net'_def)
    have ih: "prune_edges P es net' = Inr (net'\<lparr>edges :=
        filter (\<lambda>e. \<not> (e \<in> set es \<and> P (fst (fst e)) (snd (fst e)) (snd e))) (edges net')\<rparr>)"
    proof (rule Cons.IH)
      show "distinct (map fst (edges net'))" using Cons.prems(1) by (simp add: e' distinct_map_filter)
      show "set es \<subseteq> set (edges net')" using Cons.prems(2) notin by (auto simp: e')
      show "distinct (map fst es)" using Cons.prems(3) by simp
    qed
    have same: "(fst e \<noteq> (i, j) \<and> \<not> (e \<in> set es \<and> P (fst (fst e)) (snd (fst e)) (snd e))) =
          (\<not> (e \<in> set (a # es) \<and> P (fst (fst e)) (snd (fst e)) (snd e)))"
      if e: "e \<in> set (edges net)" for e
    proof (cases "fst e = (i, j)")
      case key: True
      then have "e = a" using uniq[OF e] a by simp
      then show ?thesis using True a by simp
    next
      case False
      then have "e \<noteq> a" using a by auto
      then show ?thesis using False by simp
    qed
    have "filter (\<lambda>e. \<not> (e \<in> set es \<and> P (fst (fst e)) (snd (fst e)) (snd e))) (edges net')
        = filter (\<lambda>e. \<not> (e \<in> set (a # es) \<and> P (fst (fst e)) (snd (fst e)) (snd e))) (edges net)"
      unfolding e' filter_filter using same by (intro filter_cong) auto
    then show ?thesis using step ih by (simp add: net'_def)
  qed
qed

lemma prune_edges_all:
  assumes "distinct (map fst (edges net))"
  shows "prune_edges P (edges net) net =
    Inr (net\<lparr>edges := filter (\<lambda>e. \<not> P (fst (fst e)) (snd (fst e)) (snd e)) (edges net)\<rparr>)"
proof -
  have "filter (\<lambda>e. \<not> (e \<in> set (edges net) \<and> P (fst (fst e)) (snd (fst e)) (snd e))) (edges net)
      = filter (\<lambda>e. \<not> P (fst (fst e)) (snd (fst e)) (snd e)) (edges net)"
    by (intro filter_cong) auto
  then show ?thesis using prune_edges_filter[OF assms subset_refl assms, of P] by simp
qed

lemma remove_nodes_filter:
  assumes "set ns \<subseteq> set (nodes net)" "distinct ns"
  shows "remove_nodes ns net =
    Inr \<lparr>nodes = filter (\<lambda>n. n \<notin> set ns) (nodes net),
         edges = filter (\<lambda>e. fst (fst e) \<notin> set ns \<and> snd (fst e) \<notin> set ns) (edges net)\<rparr>"
  using assms
proof (induction ns arbitrary: net)
  case Nil
  then show ?case by simp
next
  case (Cons n ns)
  let ?net' = "\<lparr>nodes = removeAll n (nodes net),
                edges = filter (\<lambda>e. fst (fst e) \<noteq> n \<and> snd (fst e) \<noteq> n) (edges net)\<rparr>"
  have "remove_nodes (n # ns) net = remove_nodes ns ?net'"
    using Cons.prems by (simp add: remove_node_def)
  also have "\<dots> = Inr \<lparr>nodes = filter (\<lambda>n. n \<notin> set ns) (nodes ?net'),
         edges = filter (\<lambda>e. fst (fst e) \<notin> set ns \<and> snd (fst e) \<notin> set ns) (edges ?net')\<rparr>"
    using Cons.prems by (intro Cons.IH) auto
  finally show ?case by (auto simp: removeAll_filter_not_eq intro!: filter_cong)
qed

section \<open>The shared-editing network\<close>

text \<open>Nodes and edge keys stay free of duplicates while the graph is built.\<close>

lemma wf_count_edge:
  assumes "distinct (nodes g) \<and> distinct (map fst (edges g))"
  shows "distinct (nodes (count_edge g u v)) \<and> distinct (map fst (edges (count_edge g u v)))"
  using assms
  by (auto simp: count_edge_def add_edge_def Let_def distinct_update distinct_nodes_add_node
      split: option.splits)

lemma wf_count_edges:
  assumes "distinct (nodes g) \<and> distinct (map fst (edges g))"
  shows "distinct (nodes (fold (\<lambda>(num, article) net. count_edge net article (f num)) ps g)) \<and>
    distinct (map fst (edges (fold (\<lambda>(num, article) net. count_edge net article (f num)) ps g)))"
  using assms
proof (induction ps arbitrary: g)
  case Nil
  then show ?case by simp
next
  case (Cons p ps)
  obtain num article where p: "p = (num, article)" by (cases p)
  show ?case using Cons.IH[OF wf_count_edge[OF Cons.prems, of article "f num"]] p by simp
qed

lemma wf_editor_walk:
  assumes "distinct (nodes g) \<and> distinct (map fst (edges g))"
  shows "distinct (nodes (editor_walk articles g)) \<and>
    distinct (map fst (edges (editor_walk articles g)))"
  unfolding editor_walk_def using wf_count_edges[OF assms, of "\<lambda>num. articles ! (num + 1)"] .

lemma wf_build:
  assumes "distinct (nodes g) \<and> distinct (map fst (edges g))"
  shows "distinct (nodes (fold (\<lambda>(editor, revisions) net.
            editor_walk (map title revisions) net) d g)) \<and>
         distinct (map fst (edges (fold (\<lambda>(editor, revisions) net.
            editor_walk (map title revisions) net) d g)))"
  using assms
proof (induction d arbitrary: g)
  case Nil
  then show ?case by simp
next
  case (Cons p d)
  obtain editor revisions where p: "p = (editor, revisions)" by (cases p)
  show ?case using Cons.IH[OF wf_editor_walk[OF Cons.prems, of "map title revisions"]] p by simp
qed

text \<open>
  C1. For every dictionary of editors' revision lists and every threshold,
  \<open>make_shared_user_editing_network\<close> returns a graph (no removal raises) in which no edge
  has a weight below the threshold, no edge has the same source and target, and every
  node has in-degree plus out-degree at least 1.
\<close>

theorem shared_user_editing_network_invariants:
  "\<exists>net. make_shared_user_editing_network alter_revisions_dict threshold = Inr net \<and>
     (\<forall>e \<in> set (edges net). \<not> snd e < threshold \<and> fst (fst e) \<noteq> snd (fst e)) \<and>
     (\<forall>n \<in> set (nodes net). 1 \<le> in_degree net n + out_degree net n)"
proof -
  define net where "net = fold (\<lambda>(editor, revisions) net. editor_walk (map title revisions) net)
                  alter_revisions_dict (DiGraph :: (string, int) digraph)"
  define net1 where "net1 = net\<lparr>edges := filter (\<lambda>e. \<not> snd e < threshold) (edges net)\<rparr>"
  define net2 where
    "net2 = net1\<lparr>edges := filter (\<lambda>e. \<not> fst (fst e) = snd (fst e)) (edges net1)\<rparr>"
  define iso where "iso = isolates net2"
  define net3 where "net3 = \<lparr>nodes = filter (\<lambda>n. n \<notin> set iso) (nodes net2),
         edges = filter (\<lambda>e. fst (fst e) \<notin> set iso \<and> snd (fst e) \<notin> set iso) (edges net2)\<rparr>"
  have wf: "distinct (nodes net) \<and> distinct (map fst (edges net))"
    unfolding net_def by (rule wf_build) (simp add: DiGraph_def)
  have p1: "prune_edges (\<lambda>i j d. d < threshold) (edges net) net = Inr net1"
    unfolding net1_def using prune_edges_all[of net "\<lambda>i j d. d < threshold"] wf by simp
  have wf1: "distinct (nodes net1) \<and> distinct (map fst (edges net1))"
    using wf by (simp add: net1_def distinct_map_filter)
  have p2: "prune_edges (\<lambda>i j d. i = j) (edges net1) net1 = Inr net2"
    unfolding net2_def using prune_edges_all[of net1 "\<lambda>i j d. i = j"] wf1 by simp
  have wf2: "distinct (nodes net2)" using wf1 by (simp add: net2_def)
  have p3: "remove_nodes (isolates net2) net2 = Inr net3"
    unfolding net3_def iso_def
    by (rule remove_nodes_filter) (auto simp: isolates_def wf2)
  have res: "make_shared_user_editing_network alter_revisions_dict threshold = Inr net3"
    unfolding make_shared_user_editing_network_def Let_def net_def[symmetric]
    by (simp add: p1 p2 p3)
  have iso_iff: "\<And>n. n \<in> set iso \<Longrightarrow> degree net2 n = 0"
    by (simp add: iso_def isolates_def)
  have keep: "edges net3 = edges net2"
  proof -
    have "\<And>e. e \<in> set (edges net2) \<Longrightarrow> fst (fst e) \<notin> set iso \<and> snd (fst e) \<notin> set iso"
    proof -
      fix e assume e: "e \<in> set (edges net2)"
      then have "0 < degree net2 (fst (fst e))" "0 < degree net2 (snd (fst e))"
        by (auto simp: degree_pos_iff)
      then show "fst (fst e) \<notin> set iso \<and> snd (fst e) \<notin> set iso"
        using iso_iff by fastforce
    qed
    then show ?thesis by (simp add: net3_def)
  qed
  have e_ok: "\<forall>e \<in> set (edges net3). \<not> snd e < threshold \<and> fst (fst e) \<noteq> snd (fst e)"
    by (simp add: keep net2_def net1_def)
  have n_ok: "\<forall>n \<in> set (nodes net3). 1 \<le> in_degree net3 n + out_degree net3 n"
  proof
    fix n assume "n \<in> set (nodes net3)"
    then have "n \<in> set (nodes net2)" "n \<notin> set iso" by (auto simp: net3_def)
    then have "degree net2 n \<noteq> 0" by (simp add: iso_def isolates_def)
    then have "1 \<le> in_degree net2 n + out_degree net2 n" unfolding degree_def by linarith
    then show "1 \<le> in_degree net3 n + out_degree net3 n"
      using keep by (simp add: in_degree_def out_degree_def)
  qed
  show ?thesis using res e_ok n_ok by blast
qed

text \<open>
  The theorem at the dictionary \<open>{u1: [X, Y], u2: [Y, Z, Y]}\<close> with threshold 1: the three
  edges of weight 1 stay, and so do their three nodes.
\<close>

theorem shared_user_editing_network_invariants_witness:
  "make_shared_user_editing_network shared_example 1 =
     Inr \<lparr>nodes = [''X'', ''Y'', ''Z''],
          edges = [((''X'', ''Y''), 1), ((''Y'', ''Z''), 1), ((''Z'', ''Y''), 1)]\<rparr> \<and>
   (\<exists>net. make_shared_user_editing_network shared_example 1 = Inr net \<and>
     (\<forall>e \<in> set (edges net). \<not> snd e < 1 \<and> fst (fst e) \<noteq> snd (fst e)) \<and>
     (\<forall>n \<in> set (nodes net). 1 \<le> in_degree net n + out_degree net n))"
proof -
  have "make_shared_user_editing_network shared_example 1 =
     Inr \<lparr>nodes = [''X'', ''Y'', ''Z''],
          edges = [((''X'', ''Y''), 1), ((''Y'', ''Z''), 1), ((''Z'', ''Y''), 1)]\<rparr>"
    by (simp add: make_shared_user_editing_network_def shared_example_def mk_revision_def
        editor_walk_def count_edge_def add_edge_def add_node_def DiGraph_def remove_edge_def
        has_edge_def isolates_def degree_def in_degree_def out_degree_def remove_node_def Let_def)
  then show ?thesis
    using shared_user_editing_network_invariants[of shared_example 1] by simp
qed

section \<open>The hyperlink network\<close>

lemma has_edge_hyperlink_page:
  "has_edge (hyperlink_page ks page links g) p l \<longleftrightarrow>
     has_edge g p l \<or> (p = page \<and> l \<in> set links \<and> l \<in> set ks)"
  unfolding hyperlink_page_def
  by (induction links arbitrary: g) (auto simp: has_edge_add_edge)

lemma has_edge_fold_hyperlink_page:
  "has_edge (fold (\<lambda>(page, links) g. hyperlink_page ks page links g) d g) p l \<longleftrightarrow>
     has_edge g p l \<or> (\<exists>links. (p, links) \<in> set d \<and> l \<in> set links \<and> l \<in> set ks)"
  by (induction d arbitrary: g) (auto simp: has_edge_hyperlink_page)

text \<open>
  C6. For every dictionary from page titles to lists of out-link titles (its keys
  distinct, as a dictionary's are), the hyperlink network has the edge from \<open>page\<close> to
  \<open>link\<close> if and only if \<open>link\<close> occurs in the list of \<open>page\<close> and \<open>link\<close> is itself a key
  of the dictionary.
\<close>

theorem hyperlink_edge_iff:
  assumes "distinct (map fst hyperlink_dict)"
  shows "has_edge (make_hyperlink_network hyperlink_dict) page link \<longleftrightarrow>
     (\<exists>links. map_of hyperlink_dict page = Some links \<and> link \<in> set links
        \<and> link \<in> dom (map_of hyperlink_dict))"
  using assms
  by (auto simp: make_hyperlink_network_def has_edge_fold_hyperlink_page
      dom_map_of_conv_image_fst intro: map_of_SomeD)

text \<open>
  The theorem at the dictionary \<open>{A: [B, C], B: [A]}\<close>, where \<open>C\<close> is not a key: the graph
  has the edges from \<open>A\<close> to \<open>B\<close> and from \<open>B\<close> to \<open>A\<close>, and no edge from \<open>A\<close> to \<open>C\<close>.
\<close>

theorem hyperlink_edge_iff_witness:
  "distinct (map fst [(''A'', [''B'', ''C'']), (''B'', [''A''])]) \<and>
   has_edge (make_hyperlink_network [(''A'', [''B'', ''C'']), (''B'', [''A''])]) ''A'' ''B'' \<and>
   has_edge (make_hyperlink_network [(''A'', [''B'', ''C'']), (''B'', [''A''])]) ''B'' ''A'' \<and>
   \<not> has_edge (make_hyperlink_network [(''A'', [''B'', ''C'']), (''B'', [''A''])]) ''A'' ''C''"
proof -
  have d: "distinct (map fst [(''A'', [''B'', ''C'']), (''B'', [''A''])])" by simp
  show ?thesis
    using d hyperlink_edge_iff[OF d, of "''A''" "''B''"] hyperlink_edge_iff[OF d, of "''B''" "''A''"]
      hyperlink_edge_iff[OF d, of "''A''" "''C''"]
    by simp
qed

section \<open>The article trajectory\<close>

text \<open>
  C5. The claim is that the trajectory has the edge from the editor of each revision to
  the editor of the next one in ascending timestamp order. On the revisions of editors
  \<open>B\<close> (time 2), \<open>A\<close> (time 1), \<open>C\<close> (time 3), passed in this order, the sorted order is
  \<open>A\<close>, \<open>B\<close>, \<open>C\<close> and the claim asks for the edges from \<open>A\<close> to \<open>B\<close> and from \<open>B\<close> to \<open>C\<close>.
  The code pairs the sorted list's editor with the editor at the next index of the list
  as passed, so it builds a loop at \<open>A\<close> and no edge from \<open>A\<close> to \<open>B\<close>.
\<close>

theorem make_article_trajectory_unsorted:
  "make_article_trajectory unsorted_example =
     \<lparr>nodes = [''A'', ''B'', ''C''], edges = [((''A'', ''A''), 1), ((''B'', ''C''), 1)]\<rparr> \<and>
   map user (sort_key timestamp unsorted_example) = [''A'', ''B'', ''C''] \<and>
   \<not> has_edge (make_article_trajectory unsorted_example) ''A'' ''B''"
  by (simp add: unsorted_example_def mk_revision_def make_article_trajectory_def count_edge_def
      add_edge_def add_node_def DiGraph_def has_edge_def Let_def)

section \<open>The daily revision counts\<close>

lemma combine_le [simp]: "combine a \<le> combine b \<longleftrightarrow> a \<le> b"
  by (simp add: combine_def)

lemma combine_eq [simp]: "combine a = combine b \<longleftrightarrow> a = b"
  by (simp add: combine_def)

lemma date_combine [simp]: "date (combine d) = d"
  by (simp add: date_def combine_def)

lemma mono_combine: "mono combine"
  by (rule monoI) simp

lemma np_min_eq:
  fixes xs :: "'a::linorder list"
  assumes "xs \<noteq> []"
  shows "np_min xs = Inr (Min (set xs))"
proof (cases xs)
  case Nil
  then show ?thesis using assms by simp
next
  case (Cons x ys)
  then show ?thesis using Min.set_eq_fold[of x ys] by (simp add: np_min_def)
qed

lemma np_max_eq:
  fixes xs :: "'a::linorder list"
  assumes "xs \<noteq> []"
  shows "np_max xs = Inr (Max (set xs))"
proof (cases xs)
  case Nil
  then show ?thesis using assms by simp
next
  case (Cons x ys)
  then show ?thesis using Max.set_eq_fold[of x ys] by (simp add: np_max_def)
qed

lemma Min_combine: "finite D \<Longrightarrow> D \<noteq> {} \<Longrightarrow> Min (combine ` D) = combine (Min D)"
  using mono_Min_commute[OF mono_combine] by metis

lemma Max_combine: "finite D \<Longrightarrow> D \<noteq> {} \<Longrightarrow> Max (combine ` D) = combine (Max D)"
  using mono_Max_commute[OF mono_combine] by metis

lemma upto_shift: "[lo..hi] = map (\<lambda>k. lo + k) [0..hi - lo]"
  by (rule nth_equalityI) auto

lemma date_range_combine: "date_range (combine lo) (combine hi) = map combine [lo..hi]"
proof -
  have "combine hi - combine lo = (hi - lo) * 86400"
    unfolding combine_def by (rule left_diff_distrib[symmetric])
  then have d: "(combine hi - combine lo) div 86400 = hi - lo"
    by simp
  have "map combine [lo..hi] = map combine (map (\<lambda>k. lo + k) [0..hi - lo])"
    using upto_shift[of lo hi] by simp
  also have "\<dots> = map (\<lambda>k. combine lo + 86400 * k) [0..hi - lo]"
    unfolding map_map comp_def combine_def by (rule map_cong[OF refl]) (simp add: algebra_simps)
  finally show ?thesis
    unfolding date_range_def d by simp
qed

lemma filter_upto: "filter (\<lambda>d. a \<le> d \<and> d \<le> b) [l..u] = [max a l..min b u]"
  by (rule sorted_distinct_set_unique) (auto simp: sorted_wrt_filter)

lemma mult_le_iff_le_div:
  fixes k :: int
  assumes "0 < k"
  shows "d * k \<le> t \<longleftrightarrow> d \<le> t div k"
proof
  assume "d * k \<le> t"
  then have "(d * k) div k \<le> t div k" using assms by (rule zdiv_mono1)
  then show "d \<le> t div k" using assms by simp
next
  assume "d \<le> t div k"
  then have "d * k \<le> (t div k) * k" using assms by (simp add: mult_right_mono)
  also have "\<dots> = t - t mod k" by (simp add: algebra_simps minus_mod_eq_mult_div)
  also have "\<dots> \<le> t" using assms by simp
  finally show "d * k \<le> t" .
qed

lemma combine_le_iff: "combine d \<le> t \<longleftrightarrow> d \<le> date t"
  unfolding combine_def date_def by (rule mult_le_iff_le_div) simp

lemma le_combine_iff: "t \<le> combine d \<longleftrightarrow> day_ceil t \<le> d"
proof -
  have "t \<le> combine d \<longleftrightarrow> (- d) * 86400 \<le> - t" by (simp add: combine_def)
  also have "\<dots> \<longleftrightarrow> - d \<le> (- t) div 86400" by (rule mult_le_iff_le_div) simp
  also have "\<dots> \<longleftrightarrow> day_ceil t \<le> d" unfolding day_ceil_def by linarith
  finally show ?thesis .
qed

lemma slice_map_combine:
  assumes "in_bounds min_date" "in_bounds max_date"
  shows "slice (map (\<lambda>d. (combine d, f d)) [l..u]) min_date max_date =
     Inr (map (\<lambda>d. (combine d, f d)) [max (day_ceil min_date) l..min (date max_date) u])"
proof -
  have "filter (\<lambda>d. min_date \<le> combine d \<and> combine d \<le> max_date) [l..u] =
      filter (\<lambda>d. day_ceil min_date \<le> d \<and> d \<le> date max_date) [l..u]"
    by (simp only: combine_le_iff le_combine_iff)
  then show ?thesis
    using assms by (simp add: slice_def filter_map comp_def filter_upto)
qed

lemma zip_keys_values:
  "zip (map f (map fst xs)) (map snd xs) = map (\<lambda>p. (f (fst p), snd p)) xs"
  by (induction xs) auto

lemma map_of_map_combine:
  "map_of (map (\<lambda>p. (combine (fst p), snd p)) xs) (combine d) = map_of xs d"
  by (induction xs) auto


lemma map_of_count_fold:
  "map_of (fold count_date revisions dd0) d =
   (case map_of dd0 d of
      Some c \<Rightarrow> Some (c + int (length (revisions_on d revisions)))
    | None \<Rightarrow> if revisions_on d revisions = [] then None
              else Some (int (length (revisions_on d revisions))))"
proof (induction revisions arbitrary: dd0)
  case Nil
  then show ?case by (simp add: revisions_on_def split: option.splits)
next
  case (Cons r revisions)
  have step: "map_of (count_date r dd0) =
      (map_of dd0)(date (timestamp r) \<mapsto>
         (case map_of dd0 (date (timestamp r)) of Some c \<Rightarrow> c + 1 | None \<Rightarrow> 1))"
    by (simp add: count_date_def Let_def update_conv' split: option.splits)
  show ?case
    by (simp add: Cons.IH step revisions_on_def split: option.splits)
qed

lemma map_of_count_dates:
  "map_of (count_dates revisions) d =
     (if revisions_on d revisions = [] then None
      else Some (int (length (revisions_on d revisions))))"
  unfolding count_dates_def by (simp add: map_of_count_fold)

lemma revisions_on_Nil_iff: "revisions_on d revisions = [] \<longleftrightarrow> d \<notin> dates_of revisions"
  by (auto simp: revisions_on_def dates_of_def filter_empty_conv)

lemma keys_count_dates: "set (map fst (count_dates revisions)) = dates_of revisions"
proof -
  have "set (map fst (count_dates revisions)) = dom (map_of (count_dates revisions))"
    by (simp add: dom_map_of_conv_image_fst)
  also have "\<dots> = dates_of revisions"
    by (auto simp: dom_def map_of_count_dates revisions_on_Nil_iff)
  finally show ?thesis .
qed

lemma dates_of_nonempty: "revisions \<noteq> [] \<Longrightarrow> dates_of revisions \<noteq> {}"
  by (simp add: dates_of_def)

lemma finite_dates_of [simp]: "finite (dates_of revisions)"
  by (simp add: dates_of_def)

lemma TimeSeries_items:
  assumes "\<And>d. d \<in> set (map fst dd) \<Longrightarrow> in_bounds (combine d)"
  shows "TimeSeries (map snd dd) (map (\<lambda>i. combine i) (map fst dd)) =
     Inr (map (\<lambda>p. (combine (fst p), snd p)) dd)"
proof -
  have "list_all in_bounds (map (\<lambda>i. combine i) (map fst dd))"
    using assms by (simp add: list_all_iff)
  then show ?thesis
    unfolding TimeSeries_def using zip_keys_values[of combine dd] by simp
qed

lemma days_in_bounds_iff:
  "days_in_bounds revisions \<longleftrightarrow> (\<forall>d \<in> dates_of revisions. in_bounds (combine d))"
  by (simp add: days_in_bounds_def dates_of_def list_all_iff)

lemma revision_counter_eq:
  assumes "revisions \<noteq> []" "days_in_bounds revisions" "in_bounds min_date" "in_bounds max_date"
  shows "revision_counter revisions min_date max_date =
     Inr (map (\<lambda>d. (combine d, int (length (revisions_on d revisions))))
            [max (day_ceil min_date) (first_date revisions)..
             min (date max_date) (last_date revisions)])"
proof -
  define dd where "dd = count_dates revisions"
  define ts where "ts = map (\<lambda>p. (combine (fst p), snd p)) dd"
  have ts: "TimeSeries (map snd dd) (map (\<lambda>i. combine i) (map fst dd)) = Inr ts"
    unfolding ts_def
    by (rule TimeSeries_items)
       (use assms(2) keys_count_dates[of revisions] in \<open>simp add: dd_def days_in_bounds_iff\<close>)
  have keys: "set (map fst ts) = combine ` dates_of revisions"
  proof -
    have "set (map fst ts) = combine ` set (map fst dd)"
      by (simp add: ts_def comp_def image_image)
    then show ?thesis using keys_count_dates[of revisions] by (simp only: dd_def)
  qed
  have ne: "map fst ts \<noteq> []"
    using keys dates_of_nonempty[OF assms(1)] by auto
  have lo: "np_min (map fst ts) = Inr (combine (first_date revisions))"
    using np_min_eq[OF ne] keys Min_combine[of "dates_of revisions"]
      dates_of_nonempty[OF assms(1)]
    by (simp add: first_date_def)
  have hi: "np_max (map fst ts) = Inr (combine (last_date revisions))"
    using np_max_eq[OF ne] keys Max_combine[of "dates_of revisions"]
      dates_of_nonempty[OF assms(1)]
    by (simp add: last_date_def)
  have look: "(case map_of ts (combine d) of Some v \<Rightarrow> v | None \<Rightarrow> 0) =
      int (length (revisions_on d revisions))" for d
    by (simp add: ts_def map_of_map_combine dd_def map_of_count_dates)
  have re: "reindex ts (map combine [l..u]) 0 =
      map (\<lambda>d. (combine d, int (length (revisions_on d revisions)))) [l..u]" for l u
    by (simp add: reindex_def comp_def look)
  show ?thesis
    unfolding revision_counter_def Let_def dd_def[symmetric] ts
    by (simp add: lo hi date_range_combine re slice_map_combine[OF assms(3,4)])
qed

lemmas series_eval =
  mk_revision_def count_dates_def count_date_def daily_median_def collect_sizes_def
  collect_size_def exact_median_def combine_def date_def np_min_def np_max_def date_range_def
  reindex_def slice_def fillna_ffill_def TimeSeries_def in_bounds_def Timestamp_min_def
  Timestamp_max_def Let_def upto.simps

lemma dates_between:
  "{d. max (day_ceil min_date) (first_date revisions) \<le> d \<and>
       d \<le> min (date max_date) (last_date revisions) \<and> d \<in> dates_of revisions} =
   {d \<in> dates_of revisions. min_date \<le> combine d \<and> combine d \<le> max_date}"
  by (auto simp: first_date_def last_date_def combine_le_iff le_combine_iff)

lemma nonzero_counts_between:
  "length (filter (\<lambda>e. snd e \<noteq> 0) (counts_between revisions l u)) =
     card {d. l \<le> d \<and> d \<le> u \<and> d \<in> dates_of revisions}"
proof -
  have "length (filter (\<lambda>e. snd e \<noteq> 0) (counts_between revisions l u)) =
      length (filter (\<lambda>d. revisions_on d revisions \<noteq> []) [l..u])"
    by (simp add: counts_between_def filter_map comp_def)
  also have "\<dots> = card (set (filter (\<lambda>d. revisions_on d revisions \<noteq> []) [l..u]))"
    by (rule distinct_card[symmetric]) simp
  also have "set (filter (\<lambda>d. revisions_on d revisions \<noteq> []) [l..u]) =
      {d. l \<le> d \<and> d \<le> u \<and> d \<in> dates_of revisions}"
    by (auto simp: revisions_on_Nil_iff)
  finally show ?thesis .
qed

text \<open>
  C2, as the code has it. For every non-empty list of revisions and every window from
  \<open>min_date\<close> to \<open>max_date\<close>, all within the range of a \<open>Timestamp\<close>, \<open>revision_counter\<close>
  returns one value per day whose midnight lies in the window and that lies between the
  first and the last day with a revision: the number of revisions of that day, zero where
  there is none. The number of non-zero entries is the number of days with a revision
  whose midnight lies in the window. The series has one value for each midnight of the
  window when the window lies between the midnights of the first and the last day with a
  revision.
\<close>

theorem revision_counter_window:
  assumes "revisions \<noteq> []" "days_in_bounds revisions"
    and "in_bounds min_date" "in_bounds max_date"
  shows "revision_counter revisions min_date max_date =
       Inr (counts_between revisions (max (day_ceil min_date) (first_date revisions))
              (min (date max_date) (last_date revisions))) \<and>
     length (filter (\<lambda>e. snd e \<noteq> 0)
         (counts_between revisions (max (day_ceil min_date) (first_date revisions))
            (min (date max_date) (last_date revisions)))) =
       card {d \<in> dates_of revisions. min_date \<le> combine d \<and> combine d \<le> max_date} \<and>
     (combine (first_date revisions) \<le> min_date \<and> max_date \<le> combine (last_date revisions) \<longrightarrow>
        map fst (counts_between revisions (max (day_ceil min_date) (first_date revisions))
            (min (date max_date) (last_date revisions))) =
          map combine [day_ceil min_date..date max_date] \<and>
        length (counts_between revisions (max (day_ceil min_date) (first_date revisions))
            (min (date max_date) (last_date revisions))) =
          nat (date max_date - day_ceil min_date + 1))"
proof -
  have 1: "revision_counter revisions min_date max_date =
       Inr (counts_between revisions (max (day_ceil min_date) (first_date revisions))
              (min (date max_date) (last_date revisions)))"
    using revision_counter_eq[OF assms] by (simp add: counts_between_def)
  have 2: "length (filter (\<lambda>e. snd e \<noteq> 0)
         (counts_between revisions (max (day_ceil min_date) (first_date revisions))
            (min (date max_date) (last_date revisions)))) =
       card {d \<in> dates_of revisions. min_date \<le> combine d \<and> combine d \<le> max_date}"
    unfolding nonzero_counts_between dates_between ..
  have 3: "map fst (counts_between revisions l u) = map combine [l..u] \<and>
        length (counts_between revisions l u) = nat (u - l + 1)" for l u
    by (simp add: counts_between_def comp_def)
  have 4: "max (day_ceil min_date) (first_date revisions) = day_ceil min_date \<and>
      min (date max_date) (last_date revisions) = date max_date"
    if "combine (first_date revisions) \<le> min_date" "max_date \<le> combine (last_date revisions)"
  proof -
    have "combine (first_date revisions - 1) < min_date"
      using that(1) by (simp add: combine_def)
    then have "first_date revisions \<le> day_ceil min_date"
      using le_combine_iff[of min_date "first_date revisions - 1"] by simp
    moreover have "max_date < combine (last_date revisions + 1)"
      using that(2) by (simp add: combine_def)
    then have "date max_date \<le> last_date revisions"
      using combine_le_iff[of "last_date revisions + 1" max_date] by simp
    ultimately show ?thesis by simp
  qed
  have 5: "map fst (counts_between revisions (max (day_ceil min_date) (first_date revisions))
            (min (date max_date) (last_date revisions))) =
          map combine [day_ceil min_date..date max_date] \<and>
        length (counts_between revisions (max (day_ceil min_date) (first_date revisions))
            (min (date max_date) (last_date revisions))) =
          nat (date max_date - day_ceil min_date + 1)"
    if "combine (first_date revisions) \<le> min_date \<and> max_date \<le> combine (last_date revisions)"
    using 3[of "day_ceil min_date" "date max_date"] 4 that by simp
  show ?thesis using 1 2 5 by blast
qed

text \<open>
  The theorem at three revisions, two on day 1 and one on day 3, and the window from one
  second after midnight of day 1 to midnight of day 3: the window holds the midnights of
  day 2 and day 3, the counts are 0 and 1, and one day with a revision has its midnight in
  the window.
\<close>

theorem revision_counter_window_witness:
  "series_example \<noteq> [] \<and> days_in_bounds series_example \<and>
   in_bounds (combine 1 + 1) \<and> in_bounds (combine 3) \<and>
   revision_counter series_example (combine 1 + 1) (combine 3) =
     Inr [(combine 2, 0), (combine 3, 1)] \<and>
   card {d \<in> dates_of series_example. combine 1 + 1 \<le> combine d \<and> combine d \<le> combine 3} = 1"
proof -
  have ne: "series_example \<noteq> []" by (simp add: series_example_def)
  have db: "days_in_bounds series_example"
    by (simp add: days_in_bounds_def series_example_def series_eval)
  have b1: "in_bounds (combine 1 + 1)" and b2: "in_bounds (combine 3)"
    by (simp_all add: series_eval)
  have ev: "revision_counter series_example (combine 1 + 1) (combine 3) =
     Inr [(combine 2, 0), (combine 3, 1)]"
    by (simp add: revision_counter_def series_example_def series_eval)
  note main = revision_counter_window[OF ne db b1 b2]
  have "counts_between series_example
            (max (day_ceil (combine 1 + 1)) (first_date series_example))
            (min (date (combine 3)) (last_date series_example)) =
          [(combine 2, 0), (combine 3, 1)]"
    using main ev by simp
  then have "card {d \<in> dates_of series_example.
        combine 1 + 1 \<le> combine d \<and> combine d \<le> combine 3} = 1"
    using main by simp
  then show ?thesis using ne db b1 b2 ev by simp
qed

text \<open>
  C2 as stated asks for one value for each day of the window. With a single revision on
  day 5 and the window from day 1 to day 10, the series has one value, for day 5, and not
  the ten values of the window.
\<close>

theorem revision_counter_window_counterexample:
  "revision_counter single_example (combine 1) (combine 10) = Inr [(combine 5, 1)] \<and>
   revision_counter single_example (combine 1) (combine 10) \<noteq>
     Inr (map (\<lambda>d. (combine d, if d = 5 then 1 else 0)) [1..10])"
  by (simp add: revision_counter_def single_example_def series_eval)

section \<open>Empty input\<close>

lemma map_of_collect_fold:
  "map_of (fold collect_size revisions dd0) d =
   (case map_of dd0 d of
      Some v \<Rightarrow> Some (v @ map size_bytes (revisions_on d revisions))
    | None \<Rightarrow> if revisions_on d revisions = [] then None
              else Some (map size_bytes (revisions_on d revisions)))"
proof (induction revisions arbitrary: dd0)
  case Nil
  then show ?case by (simp add: revisions_on_def split: option.splits)
next
  case (Cons r revisions)
  have step: "map_of (collect_size r dd0) =
      (map_of dd0)(date (timestamp r) \<mapsto>
         (case map_of dd0 (date (timestamp r)) of
            Some v \<Rightarrow> v @ [size_bytes r] | None \<Rightarrow> [size_bytes r]))"
    by (simp add: collect_size_def Let_def update_conv' split: option.splits)
  show ?case
    by (simp add: Cons.IH step revisions_on_def split: option.splits)
qed

lemma map_of_collect_sizes:
  "map_of (collect_sizes revisions) d =
     (if revisions_on d revisions = [] then None
      else Some (map size_bytes (revisions_on d revisions)))"
  unfolding collect_sizes_def by (simp add: map_of_collect_fold)

lemma map_of_daily_median:
  "map_of (daily_median np_median revisions) d =
     (if revisions_on d revisions = [] then None
      else Some (np_median (map size_bytes (revisions_on d revisions))))"
proof -
  have "map_of (daily_median np_median revisions) d =
      map_option np_median (map_of (collect_sizes revisions) d)"
    unfolding daily_median_def by (simp add: map_of_map)
  then show ?thesis by (simp add: map_of_collect_sizes)
qed

lemma keys_daily_median: "set (map fst (daily_median np_median revisions)) = dates_of revisions"
proof -
  have "set (map fst (daily_median np_median revisions)) =
      dom (map_of (daily_median np_median revisions))"
    by (simp add: dom_map_of_conv_image_fst)
  also have "\<dots> = dates_of revisions"
    by (auto simp: dom_def map_of_daily_median revisions_on_Nil_iff)
  finally show ?thesis .
qed

lemma dates_of_empty_iff: "dates_of revisions = {} \<longleftrightarrow> revisions = []"
  by (simp add: dates_of_def)

text \<open>
  C4, as the code has it. For every window, \<open>revision_counter\<close> and \<open>size_counter\<close> given no
  revision raise \<open>ValueError\<close>: the index of the series is empty and \<open>np.min\<close> of it raises.
  The aggregation alone raises nothing on no revision: the dictionary from days to counts
  and the dictionary from days to medians are empty.
\<close>

theorem empty_input_raises:
  "revision_counter [] min_date max_date = Inl ValueError \<and>
   size_counter np_median [] min_date max_date = Inl ValueError \<and>
   count_dates [] = [] \<and>
   daily_median np_median [] = []"
  by (simp add: revision_counter_def size_counter_def count_dates_def daily_median_def
      collect_sizes_def TimeSeries_def np_min_def)

text \<open>
  C4 as stated asks for a series of undefined values over the window and no error. With
  no revision and the window from day 1 to day 3, both functions raise \<open>ValueError\<close>.
\<close>

theorem empty_input_counterexample:
  "revision_counter [] (combine 1) (combine 3) = Inl ValueError \<and>
   size_counter exact_median [] (combine 1) (combine 3) = Inl ValueError \<and>
   size_counter exact_median [] (combine 1) (combine 3) \<noteq>
     Inr [(combine 1, None), (combine 2, None), (combine 3, None)]"
  by (simp add: revision_counter_def size_counter_def count_dates_def daily_median_def
      collect_sizes_def TimeSeries_def np_min_def)

section \<open>The daily median sizes, forward-filled\<close>

lemma carried_first: "carried f prev i i = (case f i of None \<Rightarrow> prev | Some x \<Rightarrow> Some x)"
proof -
  have "{d'. i \<le> d' \<and> d' \<le> i \<and> f d' \<noteq> None} = (if f i = None then {} else {i})"
    by auto
  then show ?thesis unfolding carried_def by (auto split: option.splits)
qed

lemma carried_None:
  assumes "f i = None"
  shows "carried f prev i d = carried f prev (i + 1) d"
proof -
  have "{d'. i \<le> d' \<and> d' \<le> d \<and> f d' \<noteq> None} =
      {d'. i + 1 \<le> d' \<and> d' \<le> d \<and> f d' \<noteq> None}"
    using assms by (auto simp: order_le_less)
  then show ?thesis unfolding carried_def by (simp only:)
qed

lemma carried_Some:
  assumes "f i = Some x" "i < d"
  shows "carried f prev i d = carried f (Some x) (i + 1) d"
proof -
  let ?S' = "{d'. i + 1 \<le> d' \<and> d' \<le> d \<and> f d' \<noteq> None}"
  let ?S = "{d'. i \<le> d' \<and> d' \<le> d \<and> f d' \<noteq> None}"
  have S: "?S = insert i ?S'" using assms by auto
  have fin: "finite ?S'" by (rule finite_subset[of _ "{i + 1..d}"]) auto
  show ?thesis
  proof (cases "?S' = {}")
    case True
    have "carried f prev i d = f (Max ?S)" unfolding carried_def S by simp
    also have "\<dots> = Some x" unfolding S True using assms by simp
    also have "\<dots> = carried f (Some x) (i + 1) d" unfolding carried_def True by simp
    finally show ?thesis .
  next
    case False
    then have "Max ?S' \<in> ?S'" using fin by (rule_tac Max_in)
    then have "i \<le> Max ?S'" by simp
    then have M: "Max (insert i ?S') = Max ?S'" using fin False by (simp add: max_def)
    have "carried f prev i d = f (Max ?S)" unfolding carried_def S by simp
    also have "\<dots> = f (Max ?S')" unfolding S M ..
    also have "\<dots> = carried f (Some x) (i + 1) d" unfolding carried_def by (simp only: False if_False)
    finally show ?thesis .
  qed
qed

lemma ffill_from_upto:
  "ffill_from prev (map (\<lambda>d. (k d, f d)) [l..u]) = map (\<lambda>d. (k d, carried f prev l d)) [l..u]"
proof (induction l u arbitrary: prev rule: upto.induct)
  case (1 i j)
  show ?case
  proof (cases "i \<le> j")
    case False
    then show ?thesis by simp
  next
    case True
    note IH = "1.IH"[OF True]
    show ?thesis
    proof (cases "f i")
      case None
      have "map (\<lambda>d. (k d, carried f prev (i + 1) d)) [i + 1..j] =
            map (\<lambda>d. (k d, carried f prev i d)) [i + 1..j]"
        using carried_None[of f i, OF None] by simp
      then show ?thesis
        unfolding upto_rec1[OF True] using None by (simp add: IH carried_first)
    next
      case (Some x)
      have "map (\<lambda>d. (k d, carried f (Some x) (i + 1) d)) [i + 1..j] =
            map (\<lambda>d. (k d, carried f prev i d)) [i + 1..j]"
        by (rule map_cong[OF refl]) (simp add: carried_Some[of f i, OF Some])
      then show ?thesis
        unfolding upto_rec1[OF True] using Some by (simp add: IH carried_first)
    qed
  qed
qed


lemma exact_median_None_iff: "exact_median v = None \<longleftrightarrow> v = []"
proof -
  have "sort v = [] \<longleftrightarrow> v = []" by (metis length_0_conv length_sort)
  then show ?thesis unfolding exact_median_def Let_def by (simp del: not_None_eq)
qed

lemma first_date_in: "revisions \<noteq> [] \<Longrightarrow> first_date revisions \<in> dates_of revisions"
  unfolding first_date_def by (rule Min_in) (simp_all add: dates_of_empty_iff)

lemma first_date_le: "d \<in> dates_of revisions \<Longrightarrow> first_date revisions \<le> d"
  unfolding first_date_def by (rule Min_le) simp_all

lemma last_observed_props:
  assumes "revisions \<noteq> []" "first_date revisions \<le> d"
  shows "last_observed revisions d \<in> dates_of revisions"
    and "last_observed revisions d \<le> d"
    and "\<And>d'. d' \<in> dates_of revisions \<Longrightarrow> d' \<le> d \<Longrightarrow> d' \<le> last_observed revisions d"
proof -
  let ?S = "{d' \<in> dates_of revisions. d' \<le> d}"
  have fin: "finite ?S" by simp
  have ne: "?S \<noteq> {}" using first_date_in[OF assms(1)] assms(2) by auto
  have "Max ?S \<in> ?S" using fin ne by (rule Max_in)
  then show "last_observed revisions d \<in> dates_of revisions" "last_observed revisions d \<le> d"
    by (simp_all add: last_observed_def)
  show "d' \<le> last_observed revisions d" if "d' \<in> dates_of revisions" "d' \<le> d" for d'
    unfolding last_observed_def using that by (intro Max_ge fin) simp
qed

lemma size_counter_eq:
  assumes "revisions \<noteq> []" "days_in_bounds revisions" "in_bounds min_date" "in_bounds max_date"
    and total: "\<And>v. v \<noteq> [] \<Longrightarrow> np_median v \<noteq> None"
  shows "size_counter np_median revisions min_date max_date =
     Inr (medians_between np_median revisions (max (day_ceil min_date) (first_date revisions))
            (min (date max_date) (last_date revisions)))"
proof -
  define dd2 where "dd2 = daily_median np_median revisions"
  define ts where "ts = map (\<lambda>p. (combine (fst p), snd p)) dd2"
  define f where "f = (\<lambda>d. if revisions_on d revisions = [] then None
      else np_median (map size_bytes (revisions_on d revisions)))"
  define lo where "lo = first_date revisions"
  have ts: "TimeSeries (map snd dd2) (map (\<lambda>i. combine i) (map fst dd2)) = Inr ts"
    unfolding ts_def
    by (rule TimeSeries_items)
       (use assms(2) keys_daily_median[of np_median revisions] in
         \<open>simp add: dd2_def days_in_bounds_iff\<close>)
  have keys: "set (map fst ts) = combine ` dates_of revisions"
  proof -
    have "set (map fst ts) = combine ` set (map fst dd2)"
      by (simp add: ts_def comp_def image_image)
    then show ?thesis using keys_daily_median[of np_median revisions] by (simp only: dd2_def)
  qed
  have ne: "map fst ts \<noteq> []"
    using keys dates_of_nonempty[OF assms(1)] by auto
  have lo: "np_min (map fst ts) = Inr (combine lo)"
    using np_min_eq[OF ne] keys Min_combine[of "dates_of revisions"]
      dates_of_nonempty[OF assms(1)]
    by (simp add: first_date_def lo_def)
  have hi: "np_max (map fst ts) = Inr (combine (last_date revisions))"
    using np_max_eq[OF ne] keys Max_combine[of "dates_of revisions"]
      dates_of_nonempty[OF assms(1)]
    by (simp add: last_date_def)
  have look: "(case map_of ts (combine d) of Some v \<Rightarrow> v | None \<Rightarrow> None) = f d" for d
    by (simp add: ts_def map_of_map_combine dd2_def map_of_daily_median f_def)
  have re: "reindex ts (map combine [l..u]) None = map (\<lambda>d. (combine d, f d)) [l..u]" for l u
    by (simp add: reindex_def comp_def look)
  have f_None: "f d \<noteq> None \<longleftrightarrow> d \<in> dates_of revisions" for d
  proof (cases "revisions_on d revisions = []")
    case True
    then show ?thesis by (simp add: f_def revisions_on_Nil_iff del: not_None_eq)
  next
    case False
    then have "np_median (map size_bytes (revisions_on d revisions)) \<noteq> None"
      by (intro total) simp
    then show ?thesis using False by (simp add: f_def revisions_on_Nil_iff del: not_None_eq)
  qed
  have car: "carried f None lo d =
      np_median (map size_bytes (revisions_on (last_observed revisions d) revisions))"
    if d: "lo \<le> d" for d
  proof -
    have S: "{d'. lo \<le> d' \<and> d' \<le> d \<and> f d' \<noteq> None} = {d' \<in> dates_of revisions. d' \<le> d}"
    proof (rule set_eqI)
      fix x
      show "x \<in> {d'. lo \<le> d' \<and> d' \<le> d \<and> f d' \<noteq> None} \<longleftrightarrow>
          x \<in> {d' \<in> dates_of revisions. d' \<le> d}"
        using f_None[of x] first_date_le[of x revisions] by (auto simp: lo_def)
    qed
    have in_d: "last_observed revisions d \<in> dates_of revisions"
      using last_observed_props(1)[OF assms(1)] d by (simp add: lo_def)
    then have ne: "{d' \<in> dates_of revisions. d' \<le> d} \<noteq> {}"
      using last_observed_props(2)[OF assms(1)] d by (auto simp: lo_def)
    have "carried f None lo d = f (last_observed revisions d)"
      unfolding carried_def S last_observed_def by (simp only: ne if_False)
    also have "\<dots> =
        np_median (map size_bytes (revisions_on (last_observed revisions d) revisions))"
      using in_d by (simp add: f_def revisions_on_Nil_iff)
    finally show ?thesis .
  qed
  have filled: "fillna_ffill (reindex ts (map combine [lo..last_date revisions]) None) =
      map (\<lambda>d. (combine d, carried f None lo d)) [lo..last_date revisions]"
    unfolding re fillna_ffill_def by (rule ffill_from_upto)
  have "size_counter np_median revisions min_date max_date =
      slice (fillna_ffill (reindex ts (map combine [lo..last_date revisions]) None))
             min_date max_date"
    unfolding size_counter_def Let_def dd2_def[symmetric] ts
    by (simp add: lo hi date_range_combine)
  also have "\<dots> = Inr (map (\<lambda>d. (combine d, carried f None lo d))
      [max (day_ceil min_date) lo..min (date max_date) (last_date revisions)])"
    unfolding filled by (rule slice_map_combine[OF assms(3,4)])
  also have "map (\<lambda>d. (combine d, carried f None lo d))
      [max (day_ceil min_date) lo..min (date max_date) (last_date revisions)] =
      medians_between np_median revisions (max (day_ceil min_date) lo)
        (min (date max_date) (last_date revisions))"
    unfolding medians_between_def by (rule map_cong[OF refl]) (simp add: car)
  finally show ?thesis unfolding lo_def .
qed

lemma last_observed_first:
  assumes "revisions \<noteq> []"
  shows "last_observed revisions (first_date revisions) = first_date revisions"
proof -
  have "last_observed revisions (first_date revisions) \<le> first_date revisions"
    using last_observed_props(2)[OF assms order_refl] .
  moreover have "first_date revisions \<le> last_observed revisions (first_date revisions)"
    using last_observed_props(1)[OF assms order_refl] by (rule first_date_le)
  ultimately show ?thesis by simp
qed

lemma first_le_last_date:
  assumes "revisions \<noteq> []"
  shows "first_date revisions \<le> last_date revisions"
proof -
  have "first_date revisions \<in> dates_of revisions" by (rule first_date_in[OF assms])
  then show ?thesis unfolding last_date_def by (intro Max_ge) simp_all
qed

text \<open>
  C7, as the code has it. For every non-empty list of revisions and every window from
  \<open>min_date\<close> to \<open>max_date\<close>, all within the range of a \<open>Timestamp\<close>, and for every median
  function that gives a number on a non-empty list, \<open>size_counter\<close> returns the series that
  gives each day whose midnight lies in the window, between the first and the last day
  with a revision, the median size of the last day with a revision at or before it. Every
  value of the series is a value of the dictionary from days to medians, the one of the
  most recent observed day at or before its date. When the window starts at or before the
  midnight of the first observed day (and reaches it), the first entry of the series is
  that day with its median, the first observed value.
\<close>

theorem size_counter_forward_fill:
  assumes "revisions \<noteq> []" "days_in_bounds revisions"
    and "in_bounds min_date" "in_bounds max_date"
    and "\<And>v. v \<noteq> [] \<Longrightarrow> np_median v \<noteq> None"
  shows "size_counter np_median revisions min_date max_date =
       Inr (medians_between np_median revisions
              (max (day_ceil min_date) (first_date revisions))
              (min (date max_date) (last_date revisions))) \<and>
     (\<forall>e \<in> set (medians_between np_median revisions
                  (max (day_ceil min_date) (first_date revisions))
                  (min (date max_date) (last_date revisions))).
        \<exists>d \<in> dates_of revisions. combine d \<le> fst e \<and>
          (\<forall>d' \<in> dates_of revisions. combine d' \<le> fst e \<longrightarrow> d' \<le> d) \<and>
          map_of (daily_median np_median revisions) d = Some (snd e)) \<and>
     snd ` set (medians_between np_median revisions
                  (max (day_ceil min_date) (first_date revisions))
                  (min (date max_date) (last_date revisions)))
       \<subseteq> snd ` set (daily_median np_median revisions) \<and>
     (min_date \<le> combine (first_date revisions) \<and> combine (first_date revisions) \<le> max_date \<longrightarrow>
        fst (hd (medians_between np_median revisions
                  (max (day_ceil min_date) (first_date revisions))
                  (min (date max_date) (last_date revisions)))) =
          combine (first_date revisions) \<and>
        map_of (daily_median np_median revisions) (first_date revisions) =
          Some (snd (hd (medians_between np_median revisions
                  (max (day_ceil min_date) (first_date revisions))
                  (min (date max_date) (last_date revisions))))))"
proof -
  let ?out = "medians_between np_median revisions
                  (max (day_ceil min_date) (first_date revisions))
                  (min (date max_date) (last_date revisions))"
  note ne = assms(1)
  have 1: "size_counter np_median revisions min_date max_date = Inr ?out"
    by (rule size_counter_eq[OF assms])
  have 2: "\<exists>d \<in> dates_of revisions. combine d \<le> fst e \<and>
          (\<forall>d' \<in> dates_of revisions. combine d' \<le> fst e \<longrightarrow> d' \<le> d) \<and>
          map_of (daily_median np_median revisions) d = Some (snd e)"
    if e: "e \<in> set ?out" for e
  proof -
    obtain d0 where d0: "max (day_ceil min_date) (first_date revisions) \<le> d0"
      and e_eq: "e = (combine d0,
         np_median (map size_bytes (revisions_on (last_observed revisions d0) revisions)))"
      using e unfolding medians_between_def by auto
    have lo: "first_date revisions \<le> d0" using d0 by simp
    note p = last_observed_props[OF ne lo]
    have "map_of (daily_median np_median revisions) (last_observed revisions d0) = Some (snd e)"
      using p(1) by (simp add: map_of_daily_median revisions_on_Nil_iff e_eq)
    moreover have "combine (last_observed revisions d0) \<le> fst e"
      using p(2) by (simp add: e_eq)
    moreover have "\<forall>d' \<in> dates_of revisions. combine d' \<le> fst e \<longrightarrow>
        d' \<le> last_observed revisions d0"
      using p(3) by (simp add: e_eq)
    ultimately show ?thesis using p(1) by blast
  qed
  have 3: "snd ` set ?out \<subseteq> snd ` set (daily_median np_median revisions)"
  proof
    fix v assume "v \<in> snd ` set ?out"
    then obtain e where e: "e \<in> set ?out" and v: "v = snd e" by auto
    from 2[OF e] obtain d where "map_of (daily_median np_median revisions) d = Some (snd e)"
      by blast
    then have "(d, snd e) \<in> set (daily_median np_median revisions)" by (rule map_of_SomeD)
    then have "snd (d, snd e) \<in> snd ` set (daily_median np_median revisions)" by (rule imageI)
    then show "v \<in> snd ` set (daily_median np_median revisions)" using v by simp
  qed
  have 4: "fst (hd ?out) = combine (first_date revisions) \<and>
      map_of (daily_median np_median revisions) (first_date revisions) = Some (snd (hd ?out))"
    if w: "min_date \<le> combine (first_date revisions)" "combine (first_date revisions) \<le> max_date"
  proof -
    have "day_ceil min_date \<le> first_date revisions"
      using w(1) by (simp add: le_combine_iff)
    then have m: "max (day_ceil min_date) (first_date revisions) = first_date revisions"
      by simp
    have "first_date revisions \<le> date max_date"
      using w(2) by (simp add: combine_le_iff)
    then have le: "first_date revisions \<le> min (date max_date) (last_date revisions)"
      using first_le_last_date[OF ne] by simp
    have "hd ?out = (combine (first_date revisions),
        np_median (map size_bytes (revisions_on (first_date revisions) revisions)))"
      unfolding medians_between_def m
      by (simp add: upto_rec1[OF le] last_observed_first[OF ne])
    then show ?thesis
      using first_date_in[OF ne] by (simp add: map_of_daily_median revisions_on_Nil_iff)
  qed
  show ?thesis using 1 2 3 4 by blast
qed

text \<open>
  The theorem at the revisions of sizes 100 and 150 on day 1 and 200 on day 3, with the
  exact median, and the window from one second after midnight of day 1 to one second
  before midnight of day 4: the window holds the midnights of day 2 and day 3, and the
  medians are 125 (carried forward from day 1) and 200.
\<close>

theorem size_counter_forward_fill_witness:
  "series_example \<noteq> [] \<and> days_in_bounds series_example \<and>
   in_bounds (combine 1 + 1) \<and> in_bounds (combine 4 - 1) \<and>
   size_counter exact_median series_example (combine 1 + 1) (combine 4 - 1) =
     Inr [(combine 2, Some 125), (combine 3, Some 200)] \<and>
   {Some 125, Some 200} \<subseteq> snd ` set (daily_median exact_median series_example)"
proof -
  have ne: "series_example \<noteq> []" by (simp add: series_example_def)
  have db: "days_in_bounds series_example"
    by (simp add: days_in_bounds_def series_example_def series_eval)
  have b1: "in_bounds (combine 1 + 1)" and b2: "in_bounds (combine 4 - 1)"
    by (simp_all add: series_eval)
  have tot: "\<And>v. v \<noteq> [] \<Longrightarrow> exact_median v \<noteq> None"
    by (simp add: exact_median_None_iff del: not_None_eq)
  have ev: "size_counter exact_median series_example (combine 1 + 1) (combine 4 - 1) =
     Inr [(combine 2, Some 125), (combine 3, Some 200)]"
    by (simp add: size_counter_def series_example_def series_eval)
  note main = size_counter_forward_fill[where np_median = exact_median, OF ne db b1 b2 tot]
  have "medians_between exact_median series_example
            (max (day_ceil (combine 1 + 1)) (first_date series_example))
            (min (date (combine 4 - 1)) (last_date series_example)) =
          [(combine 2, Some 125), (combine 3, Some 200)]"
    using main ev by simp
  then have "{Some 125, Some 200} \<subseteq> snd ` set (daily_median exact_median series_example)"
    using main by simp
  then show ?thesis using ne db b1 b2 ev by simp
qed

text \<open>
  C7 as stated asks that the first date of the output has the first observed value. With
  the sizes 10 on day 0, 20 on day 1 and 30 on day 5, and the window from day 3 to day 4,
  the first date of the output is day 3 and its value is 20, the median of day 1 carried
  forward, while the first observed value is 10.
\<close>

theorem size_counter_forward_fill_counterexample:
  "size_counter exact_median late_window_example (combine 3) (combine 4) =
     Inr [(combine 3, Some 20), (combine 4, Some 20)] \<and>
   map_of (daily_median exact_median late_window_example) (first_date late_window_example) =
     Some (Some 10)"
  by (simp add: size_counter_def late_window_example_def first_date_def dates_of_def series_eval)

section \<open>Identity resolution\<close>

lemma not_digit_dot [simp]: "\<not> is_digit CHR ''.''"
  by (simp add: is_digit_def)

lemma octet_digits: "octet s \<Longrightarrow> x \<in> set s \<Longrightarrow> is_digit x"
  by (simp add: octet_def list_all_iff)

lemma octet_no_dot: "octet s \<Longrightarrow> CHR ''.'' \<notin> set s"
  using octet_digits not_digit_dot by blast

lemma takeWhile_octet:
  assumes "octet s"
  shows "takeWhile is_digit (s @ CHR ''.'' # rest) = s"
  using octet_digits[OF assms] by (simp add: takeWhile_append2)

lemma octet_length: "octet s \<Longrightarrow> length s = 1 \<or> length s = 2 \<or> length s = 3"
proof -
  assume "octet s"
  then have "0 < length s" "length s \<le> 3" by (simp_all add: octet_def)
  then show ?thesis by linarith
qed

lemma octet_dot_step:
  assumes "octet s"
  shows "rest \<in> set (octet_dot False (s @ CHR ''.'' # rest))"
proof -
  have k: "length s \<in> set (filter (\<lambda>k. k \<le> length s) [3, 2, 1])"
    using octet_length[OF assms] by auto
  have "drop (length s) (s @ CHR ''.'' # rest) \<in> set (class_1_3 is_digit (s @ CHR ''.'' # rest))"
    unfolding class_1_3_def takeWhile_octet[OF assms] set_map using k by (rule imageI)
  then have "CHR ''.'' # rest \<in> set (class_1_3 is_digit (s @ CHR ''.'' # rest))"
    by simp
  then have "tl (CHR ''.'' # rest) \<in> set (octet_dot False (s @ CHR ''.'' # rest))"
    unfolding octet_dot_def octet_pattern_def literal_def by (simp del: list.sel) force
  then show ?thesis by simp
qed

lemma octet_last:
  assumes "octet s"
  shows "octet_pattern False s \<noteq> []"
proof -
  have tw: "takeWhile is_digit s = s"
    using octet_digits[OF assms] by (simp add: takeWhile_eq_all_conv)
  have len: "1 \<le> length s" using assms by (cases s) (simp_all add: octet_def)
  show ?thesis unfolding octet_pattern_def class_1_3_def tw using len by simp
qed

lemma is_ip_dotted_quad:
  assumes "octet a" "octet b" "octet c" "octet d"
  shows "is_ip (JStr (dotted_quad a b c d)) False"
proof -
  have 1: "b @ CHR ''.'' # c @ CHR ''.'' # d \<in> set (octet_dot False (dotted_quad a b c d))"
    using octet_dot_step[OF assms(1), of "b @ CHR ''.'' # c @ CHR ''.'' # d"]
    by (simp add: dotted_quad_def)
  have 2: "c @ CHR ''.'' # d \<in> set (octet_dot False (b @ CHR ''.'' # c @ CHR ''.'' # d))"
    by (rule octet_dot_step[OF assms(2)])
  have 3: "d \<in> set (octet_dot False (c @ CHR ''.'' # d))"
    by (rule octet_dot_step[OF assms(3)])
  obtain x where x: "x \<in> set (octet_pattern False d)"
    using octet_last[OF assms(4)] by (cases "octet_pattern False d") auto
  have "x \<in> set (ip_pattern False (dotted_quad a b c d))"
    unfolding ip_pattern_def using 1 2 3 x by auto
  then show ?thesis by auto
qed

lemma split_on_step:
  assumes "sep \<notin> set s"
  shows "split_on sep (s @ sep # rest) = s # split_on sep rest"
  using assms by (induction s) auto

lemma split_on_last:
  assumes "sep \<notin> set s"
  shows "split_on sep s = [s]"
  using assms by (induction s) auto

lemma split_dotted_quad:
  assumes "octet a" "octet b" "octet c" "octet d"
  shows "split_on CHR ''.'' (dotted_quad a b c d) = [a, b, c, d]"
  using assms
  by (simp add: dotted_quad_def split_on_step split_on_last octet_no_dot)

lemma length_pad3: "octet s \<Longrightarrow> length (pad3 s) = 3"
  by (simp add: pad3_def octet_def)

lemma is_digit_zero [simp]: "is_digit CHR ''0''"
  by (simp add: is_digit_def)

lemma digits_pad3: "octet s \<Longrightarrow> list_all is_digit (pad3 s)"
  by (auto simp: pad3_def octet_def list_all_iff)

lemma dotted_quad_not_script:
  assumes "octet a"
  shows "dotted_quad a b c d \<noteq> ''Conversion script''"
proof
  assume e: "dotted_quad a b c d = ''Conversion script''"
  obtain x xs where a: "a = x # xs" using assms by (cases a) (auto simp: octet_def)
  then have "is_digit x" using octet_digits[OF assms, of x] by simp
  moreover have "x = CHR ''C''" using e a by (simp add: dotted_quad_def)
  ultimately show False by (simp add: is_digit_def)
qed

lemma pad3_canonical:
  assumes "octet s" "octet t" "canonical s" "canonical t" "pad3 s = pad3 t"
  shows "s = t"
proof -
  have s: "(\<exists>x. s = [x]) \<or> (\<exists>x y. s = [x, y]) \<or> (\<exists>x y z. s = [x, y, z])"
    using octet_length[OF assms(1)]
    by (metis One_nat_def Suc_length_conv length_0_conv numeral_2_eq_2 numeral_3_eq_3)
  have t: "(\<exists>x. t = [x]) \<or> (\<exists>x y. t = [x, y]) \<or> (\<exists>x y z. t = [x, y, z])"
    using octet_length[OF assms(2)]
    by (metis One_nat_def Suc_length_conv length_0_conv numeral_2_eq_2 numeral_3_eq_3)
  show ?thesis
    using s t assms(3,4,5) by (auto simp: pad3_def canonical_def numeral_3_eq_3)
qed


text \<open>
  C10, as the code has it. For every raw revision that has the key \<open>anon\<close> and not the key
  \<open>userhidden\<close>, and whose user is a dotted quad of octets of one to three digits,
  \<open>clean_revision\<close> leaves the user and the generator as they are and sets \<open>userid\<close> to the
  four octets, each padded with zeros to three digits: twelve decimal digits. Two such
  addresses get the same \<open>userid\<close> exactly when their octets are equal after padding; the
  encoding is injective on the addresses whose octets have no leading zero.
\<close>

theorem clean_revision_ip:
  assumes "octet a" "octet b" "octet c" "octet d"
    and "r ''user'' = Some (JStr (dotted_quad a b c d))"
    and "''anon'' \<in> dom r" "''userhidden'' \<notin> dom r"
  shows "clean_revision g r = Inr (r(''userid'' \<mapsto> JStr (ip_userid a b c d)), g) \<and>
     length (ip_userid a b c d) = 12 \<and>
     list_all is_digit (ip_userid a b c d) \<and>
     (\<forall>a' b' c' d'. octet a' \<and> octet b' \<and> octet c' \<and> octet d' \<longrightarrow>
        (ip_userid a b c d = ip_userid a' b' c' d' \<longleftrightarrow>
           pad3 a = pad3 a' \<and> pad3 b = pad3 b' \<and> pad3 c = pad3 c' \<and> pad3 d = pad3 d')) \<and>
     (\<forall>a' b' c' d'. octet a' \<and> octet b' \<and> octet c' \<and> octet d' \<and>
        canonical a \<and> canonical b \<and> canonical c \<and> canonical d \<and>
        canonical a' \<and> canonical b' \<and> canonical c' \<and> canonical d' \<and>
        ip_userid a b c d = ip_userid a' b' c' d' \<longrightarrow>
        dotted_quad a b c d = dotted_quad a' b' c' d')"
proof -
  note oct = assms(1-4)
  have ip: "is_ip (JStr (dotted_quad a b c d)) False" by (rule is_ip_dotted_quad[OF oct])
  have ns: "JStr (dotted_quad a b c d) \<noteq> JStr ''Conversion script''"
    using dotted_quad_not_script[OF oct(1), of b c d] by simp
  have same: "r(''user'' \<mapsto> JStr (dotted_quad a b c d)) = r"
    using assms(5) by (rule map_upd_triv)
  have uid: "concat (map pad3 (split_on CHR ''.'' (dotted_quad a b c d))) = ip_userid a b c d"
    by (simp add: split_dotted_quad[OF oct] ip_userid_def)
  have 1: "clean_revision g r = Inr (r(''userid'' \<mapsto> JStr (ip_userid a b c d)), g)"
    unfolding clean_revision_def Let_def using assms(5,6,7) ip ns by (simp add: same uid)
  have 2: "length (ip_userid a b c d) = 12"
    using oct by (simp add: ip_userid_def length_pad3)
  have 3: "list_all is_digit (ip_userid a b c d)"
    using oct by (simp add: ip_userid_def digits_pad3)
  have 4: "ip_userid a b c d = ip_userid a' b' c' d' \<longleftrightarrow>
           pad3 a = pad3 a' \<and> pad3 b = pad3 b' \<and> pad3 c = pad3 c' \<and> pad3 d = pad3 d'"
    if "octet a' \<and> octet b' \<and> octet c' \<and> octet d'" for a' b' c' d'
    using oct that by (simp add: ip_userid_def length_pad3)
  have 5: "dotted_quad a b c d = dotted_quad a' b' c' d'"
    if h: "octet a' \<and> octet b' \<and> octet c' \<and> octet d' \<and>
        canonical a \<and> canonical b \<and> canonical c \<and> canonical d \<and>
        canonical a' \<and> canonical b' \<and> canonical c' \<and> canonical d' \<and>
        ip_userid a b c d = ip_userid a' b' c' d'" for a' b' c' d'
  proof -
    have "pad3 a = pad3 a' \<and> pad3 b = pad3 b' \<and> pad3 c = pad3 c' \<and> pad3 d = pad3 d'"
      using 4[of a' b' c' d'] h by simp
    then have "a = a'" "b = b'" "c = c'" "d = d'"
      using pad3_canonical oct h by blast+
    then show ?thesis by simp
  qed
  show ?thesis using 1 2 3 4 5 by blast
qed

text \<open>
  The theorem at the anonymous revision of the address 192.168.1.1: its \<open>userid\<close> becomes
  192168001001.
\<close>

theorem clean_revision_ip_witness:
  "octet ''192'' \<and> octet ''168'' \<and> octet ''1'' \<and>
   anon_example ''192.168.1.1'' ''user'' = Some (JStr (dotted_quad ''192'' ''168'' ''1'' ''1'')) \<and>
   ''anon'' \<in> dom (anon_example ''192.168.1.1'') \<and>
   ''userhidden'' \<notin> dom (anon_example ''192.168.1.1'') \<and>
   clean_revision (\<lambda>_. 0) (anon_example ''192.168.1.1'') =
     Inr ((anon_example ''192.168.1.1'')(''userid'' \<mapsto> JStr ''192168001001''), \<lambda>_. 0)"
proof -
  have o1: "octet ''192''" and o2: "octet ''168''" and o3: "octet ''1''"
    by (simp_all add: octet_def is_digit_def)
  have u: "anon_example ''192.168.1.1'' ''user'' =
      Some (JStr (dotted_quad ''192'' ''168'' ''1'' ''1''))"
    by (simp add: anon_example_def dotted_quad_def)
  have an: "''anon'' \<in> dom (anon_example ''192.168.1.1'')"
    by (simp add: anon_example_def)
  have nh: "''userhidden'' \<notin> dom (anon_example ''192.168.1.1'')"
    by (simp add: anon_example_def)
  have id: "ip_userid ''192'' ''168'' ''1'' ''1'' = ''192168001001''"
    by (simp add: ip_userid_def pad3_def numeral_2_eq_2)
  show ?thesis
    using o1 o2 o3 u an nh clean_revision_ip[OF o1 o2 o3 o3 u an nh, of "\<lambda>_. 0"]
    by (simp only: id) simp
qed

text \<open>
  C10 as stated says that two distinct addresses never get the same \<open>userid\<close>, for every
  anonymous revision whose user is an address. The addresses 1.2.3.4 and 01.2.3.4 are
  distinct and both get the \<open>userid\<close> 001002003004. A revision that has the key \<open>anon\<close>
  and the user 1.2.3.4, and the key \<open>userhidden\<close> too, gets a random user instead.
\<close>

theorem clean_revision_ip_counterexample:
  "cleaned_field (\<lambda>_. 0) (anon_example ''1.2.3.4'') ''userid'' = Some (JStr ''001002003004'') \<and>
   cleaned_field (\<lambda>_. 0) (anon_example ''01.2.3.4'') ''userid'' = Some (JStr ''001002003004'') \<and>
   cleaned_field (\<lambda>_. 0) hidden_anon_example ''user'' = Some (JStr ''000000000000000'')"
  by code_simp

section \<open>Reproducibility of \<open>clean_revision\<close>\<close>

text \<open>
  C9, as the code has it. For every raw revision that needs no placeholder (it is not
  hidden, its user is not the conversion script and not a masked address), the revision
  that \<open>clean_revision\<close> returns does not depend on the state of the random generator, and
  the generator is left as it is. For the other revisions the synthetic identity is drawn
  from the generator.
\<close>

theorem clean_revision_reproducible:
  assumes "\<not> needs_placeholder r"
  shows "cleaned g r = cleaned g' r \<and>
     (case clean_revision g r of Inl e \<Rightarrow> True | Inr (r', g'') \<Rightarrow> g'' = g)"
  using assms
  unfolding cleaned_def clean_revision_def needs_placeholder_def Let_def
  by (auto split: option.splits jval.splits)

text \<open>
  The theorem at the anonymous revision of the address 1.2.3.4 and two states of the
  generator.
\<close>

theorem clean_revision_reproducible_witness:
  "\<not> needs_placeholder (anon_example ''1.2.3.4'') \<and>
   cleaned (\<lambda>_. 0) (anon_example ''1.2.3.4'') = cleaned (\<lambda>_. 1) (anon_example ''1.2.3.4'')"
proof -
  have np: "\<not> needs_placeholder (anon_example ''1.2.3.4'')" by code_simp
  show ?thesis
    using np clean_revision_reproducible[OF np, of "\<lambda>_. 0" "\<lambda>_. 1"] by simp
qed

text \<open>
  C9 as stated says that two runs of \<open>clean_revision\<close> on equal records give equal
  outputs. On the revision of a hidden user, a run from the generator state whose draws
  are all 0 gives the user 000000000000000 and a run from the state whose draws are all 1
  gives the user 111111111111111.
\<close>

theorem clean_revision_reproducible_counterexample:
  "cleaned_field (\<lambda>_. 0) hidden_example ''user'' = Some (JStr ''000000000000000'') \<and>
   cleaned_field (\<lambda>_. 1) hidden_example ''user'' = Some (JStr ''111111111111111'')"
  by code_simp

end
